theory Spec2Isabelle
  imports Main "HOL-Library.Multiset"
begin

section \<open>A static k-d tree index (\<open>nano_tree\<close>, \<open>kd_tree.hpp\<close>)\<close>

text \<open>
  The theory embeds the class \<open>KdTree\<close> and its three search visitors.
  Conventions of the embedding:
  \<^item> \<open>Index\<close> values that are positions, sizes, identifiers or counts are \<open>nat\<close>; the
    threshold \<open>max_leaf_size\<close> is \<open>int\<close>, so that a negative one can be given;
  \<^item> \<open>Scalar\<close> values live in a linearly ordered integral domain, and every arithmetic
    result of the code is passed through \<open>norm\<close>, the reduction to the machine \<open>Scalar\<close>:
    \<open>wrap32\<close> for a 32-bit \<open>int\<close> (two's complement wrap-around), the identity for an
    exact \<open>Scalar\<close>; floating-point rounding is outside the model;
  \<^item> \<open>std::numeric_limits<Scalar>::max()\<close> is a parameter \<open>scalar_max\<close>;
  \<^item> the point adapter \<open>Points\<close> (external) is a record of its three accessors;
  \<^item> \<open>std::nth_element\<close> (standard library) is a parameter \<open>nth_el\<close>, constrained
    by its postcondition \<open>nth_element_spec\<close>;
  \<^item> the node arena \<open>internal::ItemBuffer\<close> lives in \<open>core.hpp\<close>; nodes never move
    once made, so a node pointer is modelled by the subtree it points to;
  \<^item> a recursion that need not end is a \<open>partial_function\<close>: not returning is
    \<open>None\<close>;
  \<^item> a data member \<open>x_\<close> of a class is the record field prefixed by the class
    (\<open>indices_\<close> of \<open>KdTree\<close> is \<open>tree_indices\<close>, \<open>min_\<close> of \<open>SearchNn\<close> is \<open>nn_min\<close>,
    \<open>knn_\<close> of \<open>SearchKnn\<close> is \<open>knn_vec\<close>, \<open>n_\<close> of \<open>SearchRadius\<close> is \<open>sr_n\<close>);
  \<^item> assertions are compiled in (no \<open>NDEBUG\<close>): an unmet \<open>assert\<close> is the error
    \<open>AssertionFailed\<close>; the access outside the caller's vector that a query with \<open>k = 0\<close>
    reaches is the error \<open>OutOfRange\<close> (in C++ the behaviour is undefined from there on;
    the model stops at the access).
\<close>

datatype error = AssertionFailed | OutOfRange

subsection \<open>Point adapter and metric\<close>

record 'a points =
  num_points :: nat
  num_dimensions :: nat
  coord :: "nat \<Rightarrow> nat \<Rightarrow> 'a"

text \<open>A query point \<open>p\<close> is read through \<open>points_(p, i)\<close>: a function of the dimension.\<close>

type_synonym 'a query = "nat \<Rightarrow> 'a"

text \<open>
  The value a 32-bit two's complement \<open>int\<close> holds after an arithmetic operation whose exact
  result is \<open>x\<close>.
\<close>

definition wrap32 :: "int \<Rightarrow> int" where
  "wrap32 x = (x + 2147483648) mod 4294967296 - 2147483648"

text \<open>
  \<open>MetricL2::operator()\<close>: the loop over the dimensions, accumulating in \<open>d\<close>. The
  difference \<open>v\<close>, the product \<open>v * v\<close> and the sum \<open>d += v * v\<close> are each computed in
  \<open>Scalar\<close>.
\<close>

function MetricL2_loop ::
  "('a \<Rightarrow> 'a) \<Rightarrow> ('a::linordered_idom) points \<Rightarrow> 'a query \<Rightarrow> nat \<Rightarrow> nat \<Rightarrow> 'a \<Rightarrow> 'a" where
  "MetricL2_loop norm pts p idx i d =
     (if i < num_dimensions pts
      then let v = norm (p i - coord pts idx i)
           in MetricL2_loop norm pts p idx (Suc i) (norm (d + norm (v * v)))
      else d)"
  by pat_completeness auto
termination
  by (relation "measure (\<lambda>(norm, pts, p, idx, i, d). num_dimensions pts - i)") auto

declare MetricL2_loop.simps [simp del]

definition MetricL2 ::
  "('a \<Rightarrow> 'a) \<Rightarrow> ('a::linordered_idom) points \<Rightarrow> 'a query \<Rightarrow> nat \<Rightarrow> 'a" where
  "MetricL2 norm pts p idx = MetricL2_loop norm pts p idx 0 0"

subsection \<open>Nodes and the index\<close>

text \<open>
  \<open>Node\<close>: a leaf holds \<open>begin_idx\<close> and \<open>end_idx\<close>, a branch holds \<open>split\<close>, \<open>dim\<close> and
  its two children.
\<close>

datatype 'a node =
    Leaf nat nat
  | Branch 'a nat "'a node" "'a node"

record 'a kd_tree =
  tree_points :: "'a points"
  tree_dimensions :: nat
  tree_indices :: "nat list"
  tree_root :: "'a node"

subsection \<open>\<open>std::nth_element\<close>\<close>

type_synonym nth_element_fn = "(nat \<Rightarrow> nat \<Rightarrow> bool) \<Rightarrow> nat \<Rightarrow> nat list \<Rightarrow> nat list"

definition strict_weak_order :: "(nat \<Rightarrow> nat \<Rightarrow> bool) \<Rightarrow> bool" where
  "strict_weak_order cmp \<longleftrightarrow>
     (\<forall>a. \<not> cmp a a) \<and>
     (\<forall>a b c. cmp a b \<longrightarrow> cmp b c \<longrightarrow> cmp a c) \<and>
     (\<forall>a b c. \<not> cmp a b \<longrightarrow> \<not> cmp b c \<longrightarrow> \<not> cmp a c)"

text \<open>
  The postcondition of \<open>std::nth_element\<close> on a range \<open>xs\<close> with \<open>n\<close> inside it: the result is a
  rearrangement, no element from position \<open>n\<close> on is less than one before \<open>n\<close>, and position
  \<open>n\<close> holds what sorting would put there (nothing after it is less).
\<close>

definition nth_element_spec :: "nth_element_fn \<Rightarrow> bool" where
  "nth_element_spec nth_el \<longleftrightarrow>
     (\<forall>cmp n xs. strict_weak_order cmp \<longrightarrow> n < length xs \<longrightarrow>
        mset (nth_el cmp n xs) = mset xs \<and>
        (\<forall>i j. i < n \<longrightarrow> n \<le> j \<longrightarrow> j < length xs \<longrightarrow>
               \<not> cmp (nth_el cmp n xs ! j) (nth_el cmp n xs ! i)) \<and>
        (\<forall>j. n \<le> j \<longrightarrow> j < length xs \<longrightarrow>
               \<not> cmp (nth_el cmp n xs ! j) (nth_el cmp n xs ! n)))"

text \<open>
  The call \<open>std::nth_element(begin + first, begin + nth, begin + last, cmp)\<close> on a vector:
  only the range is rearranged.
\<close>

definition nth_element_range ::
  "nth_element_fn \<Rightarrow> (nat \<Rightarrow> nat \<Rightarrow> bool) \<Rightarrow> nat \<Rightarrow> nat \<Rightarrow> nat \<Rightarrow> nat list \<Rightarrow> nat list" where
  "nth_element_range nth_el cmp first_pos nth_pos last_pos xs =
     take first_pos xs
     @ nth_el cmp (nth_pos - first_pos) (take (last_pos - first_pos) (drop first_pos xs))
     @ drop last_pos xs"

text \<open>
  One function that meets the postcondition, used to run the construction on concrete
  points: it sorts the whole range by insertion.
\<close>

fun insert_by :: "(nat \<Rightarrow> nat \<Rightarrow> bool) \<Rightarrow> nat \<Rightarrow> nat list \<Rightarrow> nat list" where
  "insert_by cmp x [] = [x]"
| "insert_by cmp x (y # ys) = (if cmp x y then x # y # ys else y # insert_by cmp x ys)"

fun nth_element_sort :: nth_element_fn where
  "nth_element_sort cmp n [] = []"
| "nth_element_sort cmp n (x # xs) = insert_by cmp x (nth_element_sort cmp n xs)"

subsection \<open>Construction\<close>

text \<open>
  \<open>KdTree::SplitIndices\<close>. The vector \<open>indices_\<close> is passed in and returned. With
  \<open>max_leaf_size \<le> 0\<close> and a non-empty range, or \<open>max_leaf_size < 0\<close> and any range, the
  recursion never reaches a leaf. (For an empty vector and \<open>max_leaf_size < 0\<close> the read
  \<open>indices[split]\<close> is outside the vector; what it yields only goes into the \<open>split\<close> field of
  a node of a recursion that does not return.)
\<close>

partial_function (option) SplitIndices ::
  "nth_element_fn \<Rightarrow> ('a::linordered_idom) points \<Rightarrow> nat \<Rightarrow> int \<Rightarrow> nat \<Rightarrow> nat \<Rightarrow> nat \<Rightarrow> nat list
     \<Rightarrow> ('a node \<times> nat list) option" where
  "SplitIndices nth_el pts dims max_leaf_size offset sz dm indices =
     (if int sz \<le> max_leaf_size then Some (Leaf offset (offset + sz), indices)
      else
        let left_size = sz div 2;
            right_size = sz - left_size;
            split_pos = offset + left_size;
            indices1 = nth_element_range nth_el
                         (\<lambda>a b. coord pts a dm < coord pts b dm)
                         offset split_pos (offset + sz) indices;
            next_dim = (if dm + 1 < dims then dm + 1 else 0);
            split_value = coord pts (indices1 ! split_pos) dm
        in Option.bind
             (SplitIndices nth_el pts dims max_leaf_size offset left_size next_dim indices1)
             (\<lambda>(l, indices2).
                Option.bind
                  (SplitIndices nth_el pts dims max_leaf_size split_pos right_size next_dim indices2)
                  (\<lambda>(r, indices3). Some (Branch split_value dm l r, indices3))))"

declare SplitIndices.simps [code]

text \<open>\<open>KdTree::MakeTree\<close>: \<open>std::iota\<close> over \<open>indices_\<close>, then the recursion from the root.\<close>

definition MakeTree ::
  "nth_element_fn \<Rightarrow> ('a::linordered_idom) points \<Rightarrow> int \<Rightarrow> ('a node \<times> nat list) option" where
  "MakeTree nth_el pts max_leaf_size =
     SplitIndices nth_el pts (num_dimensions pts) max_leaf_size 0 (num_points pts) 0
       [0..<num_points pts]"

text \<open>
  The constructor \<open>KdTree::KdTree\<close>: the member initialisers run first (the tree is built),
  then the body asserts that there is at least one point.
\<close>

definition KdTree ::
  "nth_element_fn \<Rightarrow> ('a::linordered_idom) points \<Rightarrow> int \<Rightarrow> (error + 'a kd_tree) option" where
  "KdTree nth_el pts max_leaf_size =
     Option.bind (MakeTree nth_el pts max_leaf_size)
       (\<lambda>(root, indices).
          if num_points pts > 0
          then Some (Inr \<lparr> tree_points = pts, tree_dimensions = num_dimensions pts,
                           tree_indices = indices, tree_root = root \<rparr>)
          else Some (Inl AssertionFailed))"

subsection \<open>Search visitors\<close>

text \<open>\<open>internal::SearchNn\<close>. The member \<open>idx_\<close> is not initialised by the constructor.\<close>

record 'a SearchNn_visitor =
  nn_idx :: "nat option"
  nn_min :: 'a

definition SearchNn_init :: "'a \<Rightarrow> 'a SearchNn_visitor" where
  "SearchNn_init scalar_max = \<lparr> nn_idx = None, nn_min = scalar_max \<rparr>"

definition SearchNn_visit :: "'a SearchNn_visitor \<Rightarrow> nat \<Rightarrow> 'a \<Rightarrow> 'a SearchNn_visitor" where
  "SearchNn_visit v idx d = v\<lparr> nn_idx := Some idx, nn_min := d \<rparr>"

definition SearchNn_max :: "'a SearchNn_visitor \<Rightarrow> 'a" where
  "SearchNn_max v = nn_min v"

definition nearest :: "'a SearchNn_visitor \<Rightarrow> nat option \<times> 'a" where
  "nearest v = (nn_idx v, nn_min v)"

text \<open>\<open>internal::SearchKnn\<close>. \<open>knn_\<close> is the caller's vector.\<close>

record 'a SearchKnn_visitor =
  knn_k :: nat
  knn_count :: nat
  knn_vec :: "(nat \<times> 'a) list"

text \<open>\<open>std::vector::resize\<close> on a vector of pairs: new elements are value-initialised.\<close>

definition resize :: "nat \<Rightarrow> (nat \<times> 'a::zero) list \<Rightarrow> (nat \<times> 'a) list" where
  "resize n xs = take n xs @ replicate (n - length xs) (0, 0)"

text \<open>
  The constructor resizes the vector to \<open>k\<close> and writes the initial search distance to
  \<open>knn_[k_ - 1].second\<close>; the position is checked here, the fault keeps the vector as it
  was at that moment.
\<close>

definition SearchKnn_init ::
  "'a \<Rightarrow> nat \<Rightarrow> (nat \<times> 'a::zero) list
     \<Rightarrow> (error \<times> (nat \<times> 'a) list) + 'a SearchKnn_visitor" where
  "SearchKnn_init scalar_max k knn =
     (let knn1 = resize k knn; j = int k - 1
      in if 0 \<le> j \<and> j < int (length knn1)
         then Inr \<lparr> knn_k = k, knn_count = 0,
                    knn_vec = knn1[nat j := (fst (knn1 ! nat j), scalar_max)] \<rparr>
         else Inl (OutOfRange, knn1))"

text \<open>
  The loop of \<open>InsertSorted\<close>, from position \<open>i\<close> down to \<open>1\<close>; it returns the position where
  it stopped and the vector. \<open>InsertSorted\<close> is reached only from \<open>operator()\<close> of a
  constructed visitor: then \<open>1 \<le> count_ \<le> k_\<close> and the vector has \<open>k_\<close> entries, so
  \<open>count_ - 1\<close> does not wrap and every access of the loop and of \<open>max()\<close> is inside the
  vector.
\<close>

fun InsertSorted_loop :: "('a::linorder) \<Rightarrow> nat \<Rightarrow> (nat \<times> 'a) list \<Rightarrow> nat \<times> (nat \<times> 'a) list" where
  "InsertSorted_loop d 0 knn = (0, knn)"
| "InsertSorted_loop d (Suc j) knn =
     (if snd (knn ! j) > d then InsertSorted_loop d j (knn[Suc j := knn ! j])
      else (Suc j, knn))"

definition InsertSorted ::
  "('a::linorder) SearchKnn_visitor \<Rightarrow> nat \<Rightarrow> 'a \<Rightarrow> 'a SearchKnn_visitor" where
  "InsertSorted v idx d =
     (case InsertSorted_loop d (knn_count v - 1) (knn_vec v) of
        (i, knn) \<Rightarrow> v\<lparr> knn_vec := knn[i := (idx, d)] \<rparr>)"

definition SearchKnn_visit ::
  "('a::linorder) SearchKnn_visitor \<Rightarrow> nat \<Rightarrow> 'a \<Rightarrow> 'a SearchKnn_visitor" where
  "SearchKnn_visit v idx d =
     InsertSorted (if knn_count v < knn_k v then v\<lparr> knn_count := knn_count v + 1 \<rparr> else v) idx d"

definition SearchKnn_max :: "'a SearchKnn_visitor \<Rightarrow> 'a" where
  "SearchKnn_max v = snd (knn_vec v ! (knn_k v - 1))"

text \<open>The destructor: \<open>knn_.resize(count_)\<close>.\<close>

definition SearchKnn_finish :: "('a::zero) SearchKnn_visitor \<Rightarrow> (nat \<times> 'a) list" where
  "SearchKnn_finish v = resize (knn_count v) (knn_vec v)"

text \<open>\<open>internal::SearchRadius\<close>. \<open>n_\<close> is the caller's vector, cleared by the constructor.\<close>

record 'a SearchRadius_visitor =
  sr_radius :: 'a
  sr_n :: "(nat \<times> 'a) list"

definition SearchRadius_init :: "'a \<Rightarrow> (nat \<times> 'a) list \<Rightarrow> 'a SearchRadius_visitor" where
  "SearchRadius_init radius n = \<lparr> sr_radius = radius, sr_n = [] \<rparr>"

definition SearchRadius_visit ::
  "'a SearchRadius_visitor \<Rightarrow> nat \<Rightarrow> 'a \<Rightarrow> 'a SearchRadius_visitor" where
  "SearchRadius_visit v idx d = v\<lparr> sr_n := sr_n v @ [(idx, d)] \<rparr>"

definition SearchRadius_max :: "'a SearchRadius_visitor \<Rightarrow> 'a" where
  "SearchRadius_max v = sr_radius v"

subsection \<open>Traversal\<close>

text \<open>
  The private \<open>KdTree::SearchNn(p, node, visitor)\<close>. Its state is the pair of the index
  (\<open>*this\<close>) and the visitor (\<open>*visitor\<close>); a visitor type \<open>V\<close> is given by its two member
  functions \<open>visit\<close> (\<open>operator()\<close>) and \<open>vmax\<close> (\<open>max()\<close>).

  The leaf loop: \<open>bound\<close> is the local \<open>max\<close>, read from the visitor once before the loop.
  (\<open>indices_[i]\<close> is unchecked in the source; in a constructed tree every leaf range lies
  inside \<open>indices_\<close>.)
\<close>

function SearchNn_leaf ::
  "('a \<Rightarrow> 'a) \<Rightarrow> ('v \<Rightarrow> nat \<Rightarrow> 'a \<Rightarrow> 'v) \<Rightarrow> ('a::linordered_idom) query \<Rightarrow> 'a \<Rightarrow> nat \<Rightarrow> nat
     \<Rightarrow> 'a kd_tree \<times> 'v \<Rightarrow> 'a kd_tree \<times> 'v" where
  "SearchNn_leaf norm visit p bound i end_idx (t, v) =
     (if i < end_idx
      then let idx = tree_indices t ! i;
               d = MetricL2 norm (tree_points t) p idx
           in SearchNn_leaf norm visit p bound (Suc i) end_idx
                (t, if bound > d then visit v idx d else v)
      else (t, v))"
  by pat_completeness auto
termination
  by (relation "measure (\<lambda>(norm, visit, p, bound, i, end_idx, s). end_idx - i)") auto

declare SearchNn_leaf.simps [simp del]

text \<open>At a branch, the difference \<open>d\<close> and the product \<open>d * d\<close> are computed in \<open>Scalar\<close>.\<close>

fun SearchNn_rec ::
  "('a \<Rightarrow> 'a) \<Rightarrow> ('v \<Rightarrow> nat \<Rightarrow> 'a \<Rightarrow> 'v) \<Rightarrow> ('v \<Rightarrow> 'a) \<Rightarrow> ('a::linordered_idom) query
     \<Rightarrow> 'a node \<Rightarrow> 'a kd_tree \<times> 'v \<Rightarrow> 'a kd_tree \<times> 'v" where
  "SearchNn_rec norm visit vmax p (Branch split_value dm l r) s =
     (let v = p dm; d = norm (v - split_value)
      in if v \<le> split_value
         then let s1 = SearchNn_rec norm visit vmax p l s
              in if vmax (snd s1) > norm (d * d) then SearchNn_rec norm visit vmax p r s1 else s1
         else let s1 = SearchNn_rec norm visit vmax p r s
              in if vmax (snd s1) > norm (d * d) then SearchNn_rec norm visit vmax p l s1 else s1)"
| "SearchNn_rec norm visit vmax p (Leaf begin_idx end_idx) s =
     SearchNn_leaf norm visit p (vmax (snd s)) begin_idx end_idx s"

subsection \<open>Public queries\<close>

text \<open>
  Each query takes the index and returns it with the answer. \<open>SearchKnn\<close> and
  \<open>SearchRadius\<close> take the caller's vector and return its final contents.
\<close>

definition SearchNn ::
  "('a \<Rightarrow> 'a) \<Rightarrow> 'a \<Rightarrow> ('a::linordered_idom) query \<Rightarrow> 'a kd_tree
     \<Rightarrow> 'a kd_tree \<times> (nat option \<times> 'a)" where
  "SearchNn norm scalar_max p t =
     (case SearchNn_rec norm SearchNn_visit SearchNn_max p (tree_root t)
             (t, SearchNn_init scalar_max) of
        (t', v) \<Rightarrow> (t', nearest v))"

definition SearchKnn ::
  "('a \<Rightarrow> 'a) \<Rightarrow> 'a \<Rightarrow> ('a::linordered_idom) query \<Rightarrow> nat \<Rightarrow> (nat \<times> 'a) list \<Rightarrow> 'a kd_tree
     \<Rightarrow> 'a kd_tree \<times> ((error \<times> (nat \<times> 'a) list) + (nat \<times> 'a) list)" where
  "SearchKnn norm scalar_max p k knn t =
     (case SearchKnn_init scalar_max k knn of
        Inl e \<Rightarrow> (t, Inl e)
      | Inr v0 \<Rightarrow>
          (case SearchNn_rec norm SearchKnn_visit SearchKnn_max p (tree_root t) (t, v0) of
             (t', v) \<Rightarrow> (t', Inr (SearchKnn_finish v))))"

definition SearchRadius ::
  "('a \<Rightarrow> 'a) \<Rightarrow> ('a::linordered_idom) query \<Rightarrow> 'a \<Rightarrow> (nat \<times> 'a) list \<Rightarrow> 'a kd_tree
     \<Rightarrow> 'a kd_tree \<times> (nat \<times> 'a) list" where
  "SearchRadius norm p radius n t =
     (case SearchNn_rec norm SearchRadius_visit SearchRadius_max p (tree_root t)
             (t, SearchRadius_init radius n) of
        (t', v) \<Rightarrow> (t', sr_n v))"

subsection \<open>Vocabulary of the properties\<close>

text \<open>The positions of \<open>indices_\<close> covered by the leaves under a node, left to right.\<close>

fun node_positions :: "'a node \<Rightarrow> nat list" where
  "node_positions (Leaf begin_idx end_idx) = [begin_idx..<end_idx]"
| "node_positions (Branch split_value dm l r) = node_positions l @ node_positions r"

text \<open>The point identifiers reachable under a node.\<close>

definition node_ids :: "nat list \<Rightarrow> 'a node \<Rightarrow> nat list" where
  "node_ids indices nd = map (\<lambda>i. indices ! i) (node_positions nd)"

text \<open>
  The partition property with a strict right side, and with a non-strict one.
\<close>

fun partitioned_strict :: "('a::linorder) points \<Rightarrow> nat list \<Rightarrow> 'a node \<Rightarrow> bool" where
  "partitioned_strict pts indices (Leaf begin_idx end_idx) = True"
| "partitioned_strict pts indices (Branch split_value dm l r) =
     ((\<forall>i \<in> set (node_ids indices l). coord pts i dm \<le> split_value) \<and>
      (\<forall>i \<in> set (node_ids indices r). split_value < coord pts i dm) \<and>
      partitioned_strict pts indices l \<and> partitioned_strict pts indices r)"

fun partitioned :: "('a::linorder) points \<Rightarrow> nat list \<Rightarrow> 'a node \<Rightarrow> bool" where
  "partitioned pts indices (Leaf begin_idx end_idx) = True"
| "partitioned pts indices (Branch split_value dm l r) =
     ((\<forall>i \<in> set (node_ids indices l). coord pts i dm \<le> split_value) \<and>
      (\<forall>i \<in> set (node_ids indices r). split_value \<le> coord pts i dm) \<and>
      partitioned pts indices l \<and> partitioned pts indices r)"

text \<open>Every split dimension of a tree is below \<open>dims\<close>.\<close>

fun dims_below :: "nat \<Rightarrow> 'a node \<Rightarrow> bool" where
  "dims_below dims (Leaf begin_idx end_idx) = True"
| "dims_below dims (Branch split_value dm l r) =
     (dm < dims \<and> dims_below dims l \<and> dims_below dims r)"

text \<open>Every split value of a tree is the coordinate, in the split dimension, of a point of \<open>S\<close>.\<close>

fun splits_in :: "'a points \<Rightarrow> nat set \<Rightarrow> 'a node \<Rightarrow> bool" where
  "splits_in pts S (Leaf begin_idx end_idx) = True"
| "splits_in pts S (Branch split_value dm l r) =
     ((\<exists>j \<in> S. split_value = coord pts j dm) \<and> splits_in pts S l \<and> splits_in pts S r)"

text \<open>
  The exact sum of the squared coordinate differences between the query and a point over the
  first \<open>k\<close> dimensions. The distance computations of a query are free of overflow when
  \<open>norm\<close> leaves every difference, every square and every running sum as it is.
\<close>

fun sq_sum :: "('a::linordered_idom) points \<Rightarrow> 'a query \<Rightarrow> nat \<Rightarrow> nat \<Rightarrow> 'a" where
  "sq_sum pts p idx 0 = 0"
| "sq_sum pts p idx (Suc k) =
     sq_sum pts p idx k + (p k - coord pts idx k) * (p k - coord pts idx k)"

definition no_overflow :: "('a \<Rightarrow> 'a) \<Rightarrow> ('a::linordered_idom) points \<Rightarrow> 'a query \<Rightarrow> bool" where
  "no_overflow norm pts p \<longleftrightarrow>
     (\<forall>i \<in> set [0..<num_points pts]. \<forall>k \<in> set [0..<num_dimensions pts].
        norm (p k - coord pts i k) = p k - coord pts i k \<and>
        norm ((p k - coord pts i k) * (p k - coord pts i k))
          = (p k - coord pts i k) * (p k - coord pts i k) \<and>
        norm (sq_sum pts p i k + (p k - coord pts i k) * (p k - coord pts i k))
          = sq_sum pts p i k + (p k - coord pts i k) * (p k - coord pts i k))"

text \<open>
  Brute force over a list of identifiers: each one whose distance to the query is strictly
  less than the radius, paired with that distance.
\<close>

definition within_radius ::
  "('a \<Rightarrow> 'a) \<Rightarrow> ('a::linordered_idom) points \<Rightarrow> 'a query \<Rightarrow> 'a \<Rightarrow> nat list
     \<Rightarrow> (nat \<times> 'a) list" where
  "within_radius norm pts p radius ids =
     filter (\<lambda>(i, d). d < radius) (map (\<lambda>i. (i, MetricL2 norm pts p i)) ids)"

text \<open>
  Two \<open>SearchKnn\<close> visitors agree when they have the same \<open>k_\<close> and \<open>count_\<close>, the same
  first \<open>count_\<close> entries, and the same search distance \<open>knn_[k_ - 1].second\<close>; the entries
  from \<open>count_\<close> on (what the caller's vector held before) may differ. A visitor is genuine
  for a distance function when each of its first \<open>count_\<close> entries pairs an identifier with
  its distance.
\<close>

definition knn_agree :: "'a SearchKnn_visitor \<Rightarrow> 'a SearchKnn_visitor \<Rightarrow> bool" where
  "knn_agree v v' \<longleftrightarrow>
     knn_k v = knn_k v' \<and> knn_count v = knn_count v' \<and>
     knn_count v \<le> knn_k v \<and> 1 \<le> knn_k v \<and>
     length (knn_vec v) = knn_k v \<and> length (knn_vec v') = knn_k v \<and>
     take (knn_count v) (knn_vec v) = take (knn_count v) (knn_vec v') \<and>
     snd (knn_vec v ! (knn_k v - 1)) = snd (knn_vec v' ! (knn_k v - 1))"

definition knn_genuine :: "(nat \<Rightarrow> 'a) \<Rightarrow> 'a SearchKnn_visitor \<Rightarrow> bool" where
  "knn_genuine dist v \<longleftrightarrow>
     (\<forall>m < knn_count v. snd (knn_vec v ! m) = dist (fst (knn_vec v ! m)))"

text \<open>
  A visitor that also records each report: the identifier, its distance, and the bound the
  wrapped visitor had when the report arrived.
\<close>

definition traced_visit ::
  "('v \<Rightarrow> nat \<Rightarrow> 'a \<Rightarrow> 'v) \<Rightarrow> ('v \<Rightarrow> 'a)
     \<Rightarrow> 'v \<times> (nat \<times> 'a \<times> 'a) list \<Rightarrow> nat \<Rightarrow> 'a \<Rightarrow> 'v \<times> (nat \<times> 'a \<times> 'a) list" where
  "traced_visit visit vmax s idx d = (visit (fst s) idx d, snd s @ [(idx, d, vmax (fst s))])"

definition traced_max :: "('v \<Rightarrow> 'a) \<Rightarrow> 'v \<times> (nat \<times> 'a \<times> 'a) list \<Rightarrow> 'a" where
  "traced_max vmax s = vmax (fst s)"

text \<open>
  Concrete inputs: the four points of the worked example with its query; two points and
  three points on a line with the query \<open>0\<close>; an empty point set; and the indexes the
  constructor builds over the points on a line (one leaf when \<open>max_leaf_size\<close> is the number
  of points, one branch over the two points when \<open>max_leaf_size = 1\<close>).
\<close>

definition example_points :: "int points" where
  "example_points =
     \<lparr> num_points = 4, num_dimensions = 2,
       coord = (\<lambda>i d. [[0, 0], [5, 5], [1, 1], [9, 0]] ! i ! d) \<rparr>"

definition line_points :: "int points" where
  "line_points =
     \<lparr> num_points = 2, num_dimensions = 1, coord = (\<lambda>i d. [[0], [3]] ! i ! d) \<rparr>"

definition three_points :: "int points" where
  "three_points =
     \<lparr> num_points = 3, num_dimensions = 1, coord = (\<lambda>i d. [[0], [1], [5]] ! i ! d) \<rparr>"

definition no_points :: "int points" where
  "no_points = \<lparr> num_points = 0, num_dimensions = 1, coord = (\<lambda>i d. 0) \<rparr>"

definition line_query :: "int query" where
  "line_query = (\<lambda>i. [0] ! i)"

definition example_query :: "int query" where
  "example_query = (\<lambda>i. [0, 1] ! i)"

definition line_tree :: "int kd_tree" where
  "line_tree = \<lparr> tree_points = line_points, tree_dimensions = 1,
                  tree_indices = [0, 1], tree_root = Leaf 0 2 \<rparr>"

definition line_tree_split :: "int kd_tree" where
  "line_tree_split = \<lparr> tree_points = line_points, tree_dimensions = 1,
                        tree_indices = [0, 1], tree_root = Branch 3 0 (Leaf 0 1) (Leaf 1 2) \<rparr>"

definition three_tree :: "int kd_tree" where
  "three_tree = \<lparr> tree_points = three_points, tree_dimensions = 1,
                   tree_indices = [0, 1, 2], tree_root = Leaf 0 3 \<rparr>"

text \<open>
  Two points in the plane whose squared distance does not fit a 32-bit \<open>int\<close>, the query at
  the origin, and the index the constructor builds over them with \<open>max_leaf_size = 1\<close>.
\<close>

definition far_points :: "int points" where
  "far_points =
     \<lparr> num_points = 2, num_dimensions = 2, coord = (\<lambda>i d. [[0, 0], [10, 46341]] ! i ! d) \<rparr>"

definition origin_query :: "int query" where
  "origin_query = (\<lambda>i. [0, 0] ! i)"

definition far_tree :: "int kd_tree" where
  "far_tree = \<lparr> tree_points = far_points, tree_dimensions = 2,
                 tree_indices = [0, 1], tree_root = Branch 10 0 (Leaf 0 1) (Leaf 1 2) \<rparr>"

section \<open>The sorting stand-in meets the postcondition of \<open>std::nth_element\<close>\<close>

lemma mset_insert_by: "mset (insert_by cmp x ys) = add_mset x (mset ys)"
  by (induction ys) auto

lemma mset_nth_element_sort: "mset (nth_element_sort cmp n xs) = mset xs"
  by (induction xs) (auto simp: mset_insert_by)

lemma set_insert_by: "set (insert_by cmp x ys) = insert x (set ys)"
  by (induction ys) auto

lemma sorted_insert_by:
  assumes "strict_weak_order cmp" "sorted_wrt (\<lambda>a b. \<not> cmp b a) ys"
  shows "sorted_wrt (\<lambda>a b. \<not> cmp b a) (insert_by cmp x ys)"
  using assms(2)
proof (induction ys)
  case Nil
  then show ?case by simp
next
  case (Cons y ys)
  have asym: "\<And>a b. cmp a b \<Longrightarrow> \<not> cmp b a"
    using assms(1) unfolding strict_weak_order_def by blast
  have ntrans: "\<And>a b c. \<not> cmp a b \<Longrightarrow> \<not> cmp b c \<Longrightarrow> \<not> cmp a c"
    using assms(1) unfolding strict_weak_order_def by blast
  show ?case
  proof (cases "cmp x y")
    case True
    have "\<forall>z \<in> set ys. \<not> cmp z x"
    proof
      fix z assume "z \<in> set ys"
      then have "\<not> cmp z y" using Cons.prems by simp
      moreover have "\<not> cmp y x" using True asym by blast
      ultimately show "\<not> cmp z x" using ntrans by blast
    qed
    then show ?thesis using True Cons.prems asym by simp
  next
    case False
    then show ?thesis using Cons by (simp add: set_insert_by)
  qed
qed

lemma sorted_nth_element_sort:
  "strict_weak_order cmp \<Longrightarrow> sorted_wrt (\<lambda>a b. \<not> cmp b a) (nth_element_sort cmp n xs)"
  by (induction xs) (auto simp: sorted_insert_by)

lemma nth_element_sort_spec: "nth_element_spec nth_element_sort"
  unfolding nth_element_spec_def
proof (intro allI impI conjI)
  fix cmp :: "nat \<Rightarrow> nat \<Rightarrow> bool" and n xs
  show "mset (nth_element_sort cmp n xs) = mset xs" by (rule mset_nth_element_sort)
next
  fix cmp :: "nat \<Rightarrow> nat \<Rightarrow> bool" and n and xs :: "nat list" and i j
  assume swo: "strict_weak_order cmp" and "n < length xs" "i < n" "n \<le> j" "j < length xs"
  have len: "length (nth_element_sort cmp n xs) = length xs"
    using mset_nth_element_sort by (metis size_mset)
  show "\<not> cmp (nth_element_sort cmp n xs ! j) (nth_element_sort cmp n xs ! i)"
    using sorted_nth_element_sort[OF swo, of n xs] \<open>i < n\<close> \<open>n \<le> j\<close> \<open>j < length xs\<close> len
    by (simp add: sorted_wrt_iff_nth_less)
next
  fix cmp :: "nat \<Rightarrow> nat \<Rightarrow> bool" and n and xs :: "nat list" and j
  assume swo: "strict_weak_order cmp" and "n < length xs" "n \<le> j" "j < length xs"
  have len: "length (nth_element_sort cmp n xs) = length xs"
    using mset_nth_element_sort by (metis size_mset)
  have irr: "\<And>a. \<not> cmp a a" using swo unfolding strict_weak_order_def by blast
  show "\<not> cmp (nth_element_sort cmp n xs ! j) (nth_element_sort cmp n xs ! n)"
  proof (cases "n = j")
    case True
    then show ?thesis using irr by simp
  next
    case False
    then have "n < j" using \<open>n \<le> j\<close> by simp
    then show ?thesis
      using sorted_nth_element_sort[OF swo, of n xs] \<open>j < length xs\<close> len
      by (simp add: sorted_wrt_iff_nth_less)
  qed
qed

lemma coord_less_swo: "strict_weak_order (\<lambda>a b. coord pts a dm < coord (pts :: ('a::linorder) points) b dm)"
  unfolding strict_weak_order_def by auto

section \<open>Properties of the construction\<close>

lemma map_nth_middle: "map (\<lambda>i. (A @ X @ B) ! i) [length A..<length A + length X] = X"
proof -
  have "[length A..<length A + length X] = map (\<lambda>i. i + length A) [0..<length X]"
    by (simp add: map_add_upt add.commute)
  then have "map (\<lambda>i. (A @ X @ B) ! i) [length A..<length A + length X]
           = map (\<lambda>i. X ! i) [0..<length X]"
    by (simp add: nth_append comp_def)
  then show ?thesis by (simp add: map_nth)
qed

lemma node_ids_cong:
  "\<forall>i \<in> set (node_positions nd). xs ! i = ys ! i \<Longrightarrow> node_ids xs nd = node_ids ys nd"
  by (simp add: node_ids_def)

lemma partitioned_cong:
  "\<forall>i \<in> set (node_positions nd). xs ! i = ys ! i \<Longrightarrow>
   partitioned pts xs nd = partitioned pts ys nd"
proof (induction nd)
  case (Leaf b e)
  then show ?case by simp
next
  case (Branch sv dm l r)
  have l: "\<forall>i \<in> set (node_positions l). xs ! i = ys ! i"
    and r: "\<forall>i \<in> set (node_positions r). xs ! i = ys ! i"
    using Branch.prems by auto
  show ?case
    using Branch.IH(1)[OF l] Branch.IH(2)[OF r] node_ids_cong[OF l] node_ids_cong[OF r]
    by simp
qed

lemma SplitIndices_leaf:
  "int sz \<le> mls \<Longrightarrow>
   SplitIndices nth_el pts dims mls offset sz dm indices = Some (Leaf offset (offset + sz), indices)"
  by (subst SplitIndices.simps) simp

lemma SplitIndices_branch:
  "\<not> int sz \<le> mls \<Longrightarrow>
   SplitIndices nth_el pts dims mls offset sz dm indices =
     (let left_size = sz div 2;
          right_size = sz - left_size;
          split_pos = offset + left_size;
          indices1 = nth_element_range nth_el
                       (\<lambda>a b. coord pts a dm < coord pts b dm)
                       offset split_pos (offset + sz) indices;
          next_dim = (if dm + 1 < dims then dm + 1 else 0);
          split_value = coord pts (indices1 ! split_pos) dm
      in Option.bind
           (SplitIndices nth_el pts dims mls offset left_size next_dim indices1)
           (\<lambda>(l, indices2).
              Option.bind
                (SplitIndices nth_el pts dims mls split_pos right_size next_dim indices2)
                (\<lambda>(r, indices3). Some (Branch split_value dm l r, indices3))))"
  by (subst SplitIndices.simps) simp

lemma splits_in_mono: "splits_in pts S nd \<Longrightarrow> S \<subseteq> S' \<Longrightarrow> splits_in pts S' nd"
  by (induction nd) auto

lemma SplitIndices_correct:
  fixes pts :: "('a::linordered_idom) points"
  assumes spec: "nth_element_spec nth_el" and mls: "1 \<le> mls"
  shows "length A = offset \<Longrightarrow> length M = sz \<Longrightarrow>
    \<exists>nd M'. SplitIndices nth_el pts dims mls offset sz dm (A @ M @ B) = Some (nd, A @ M' @ B)
          \<and> mset M' = mset M
          \<and> node_positions nd = [offset..<offset + sz]
          \<and> partitioned pts (A @ M' @ B) nd
          \<and> (dm < dims \<longrightarrow> dims_below dims nd)
          \<and> splits_in pts (set M) nd"
proof (induction sz arbitrary: A M B offset dm rule: less_induct)
  case (less sz)
  show ?case
  proof (cases "int sz \<le> mls")
    case True
    then show ?thesis
      by (intro exI[of _ "Leaf offset (offset + sz)"] exI[of _ M])
         (simp add: SplitIndices_leaf)
  next
    case False
    define ls where "ls = sz div 2"
    define rs where "rs = sz - ls"
    define sp where "sp = offset + ls"
    define cmp where "cmp = (\<lambda>a b. coord pts a dm < coord pts b dm)"
    define nd where "nd = (if dm + 1 < dims then dm + 1 else 0)"
    define ys where "ys = nth_el cmp ls M"
    have sz2: "2 \<le> sz" using False mls by simp
    have ls: "ls < sz" "1 \<le> ls" and rs: "rs < sz" "ls + rs = sz"
      using sz2 by (auto simp: ls_def rs_def)
    have nd: "dm < dims \<Longrightarrow> nd < dims" by (simp add: nd_def)
    have swo: "strict_weak_order cmp" unfolding cmp_def by (rule coord_less_swo)
    have lsM: "ls < length M" using ls less.prems by simp
    have ys_mset: "mset ys = mset M"
      and ys_lo: "\<And>i j. i < ls \<Longrightarrow> ls \<le> j \<Longrightarrow> j < length M \<Longrightarrow> \<not> cmp (ys ! j) (ys ! i)"
      and ys_hi: "\<And>j. ls \<le> j \<Longrightarrow> j < length M \<Longrightarrow> \<not> cmp (ys ! j) (ys ! ls)"
      using spec swo lsM unfolding nth_element_spec_def ys_def by blast+
    have ys_len: "length ys = sz"
      using ys_mset less.prems by (metis size_mset)
    define ind1 where "ind1 = nth_element_range nth_el cmp offset sp (offset + sz) (A @ M @ B)"
    have range: "ind1 = A @ ys @ B"
      using less.prems by (simp add: ind1_def nth_element_range_def sp_def ys_def)
    define L where "L = take ls ys"
    define R where "R = drop ls ys"
    have LR: "ys = L @ R" "length L = ls" "length R = rs"
      using ys_len ls rs by (auto simp: L_def R_def)
    from less.IH[OF ls(1), of A offset L nd "R @ B"] less.prems LR nd
    obtain l L' where l: "SplitIndices nth_el pts dims mls offset ls nd (A @ L @ R @ B)
                            = Some (l, A @ L' @ R @ B)"
      and L': "mset L' = mset L" and lpos: "node_positions l = [offset..<offset + ls]"
      and lpart: "partitioned pts (A @ L' @ R @ B) l"
      and ldims: "dm < dims \<longrightarrow> dims_below dims l"
      and lsplits: "splits_in pts (set L) l"
      by auto
    have L'len: "length L' = ls" using L' LR by (metis size_mset)
    have spA: "length (A @ L') = sp" using less.prems L'len by (simp add: sp_def)
    from less.IH[OF rs(1), of "A @ L'" sp R nd B] spA LR nd
    obtain r R' where r: "SplitIndices nth_el pts dims mls sp rs nd (A @ L' @ R @ B)
                            = Some (r, A @ L' @ R' @ B)"
      and R': "mset R' = mset R" and rpos: "node_positions r = [sp..<sp + rs]"
      and rpart: "partitioned pts (A @ L' @ R' @ B) r"
      and rdims: "dm < dims \<longrightarrow> dims_below dims r"
      and rsplits: "splits_in pts (set R) r"
      by auto
    have R'len: "length R' = rs" using R' LR by (metis size_mset)
    define sv where "sv = coord pts (ind1 ! sp) dm"
    have sv: "sv = coord pts (ys ! ls) dm"
      using less.prems ys_len ls by (simp add: sv_def range sp_def nth_append)
    have "SplitIndices nth_el pts dims mls offset sz dm (A @ M @ B) =
            Option.bind (SplitIndices nth_el pts dims mls offset ls nd ind1)
              (\<lambda>(l, indices2).
                 Option.bind (SplitIndices nth_el pts dims mls sp rs nd indices2)
                   (\<lambda>(r, indices3). Some (Branch sv dm l r, indices3)))"
      unfolding sv_def ind1_def nd_def cmp_def sp_def rs_def ls_def
      by (subst SplitIndices.simps) (simp add: False Let_def)
    then have res: "SplitIndices nth_el pts dims mls offset sz dm (A @ M @ B)
                 = Some (Branch sv dm l r, A @ (L' @ R') @ B)"
      using l r LR by (simp add: range)
    have ids_l: "node_ids (A @ (L' @ R') @ B) l = L'"
      using map_nth_middle[of A L' "R' @ B"] less.prems L'len
      by (simp add: node_ids_def lpos)
    have ids_r: "node_ids (A @ (L' @ R') @ B) r = R'"
      using map_nth_middle[of "A @ L'" R' B] spA R'len
      by (simp add: node_ids_def rpos)
    have lo: "\<forall>i \<in> set L'. coord pts i dm \<le> sv"
    proof
      fix i assume "i \<in> set L'"
      then have "i \<in> set (take ls ys)" using L' L_def by (metis mset_eq_setD)
      then obtain k where "k < ls" "i = ys ! k"
        using ys_len ls by (auto simp: in_set_conv_nth)
      then show "coord pts i dm \<le> sv"
        using ys_lo[of k ls] ls less.prems by (simp add: sv cmp_def)
    qed
    have hi: "\<forall>i \<in> set R'. sv \<le> coord pts i dm"
    proof
      fix i assume "i \<in> set R'"
      then have "i \<in> set (drop ls ys)" using R' R_def by (metis mset_eq_setD)
      then obtain k0 where "k0 < length ys - ls" "i = ys ! (ls + k0)"
        using ys_len ls by (auto simp: in_set_conv_nth)
      then have "\<exists>k. ls \<le> k \<and> k < length ys \<and> i = ys ! k"
        by (intro exI[of _ "ls + k0"]) simp
      then obtain k where "ls \<le> k" "k < length ys" "i = ys ! k" by blast
      then show "sv \<le> coord pts i dm"
        using ys_hi[of k] ys_len less.prems by (simp add: sv cmp_def)
    qed
    have "\<forall>i \<in> set (node_positions l). (A @ L' @ R @ B) ! i = (A @ (L' @ R') @ B) ! i"
      using less.prems L'len by (auto simp: lpos nth_append)
    from partitioned_cong[OF this] lpart
    have lpart': "partitioned pts (A @ (L' @ R') @ B) l" by simp
    have "[offset..<offset + ls + rs] = [offset..<offset + ls] @ [offset + ls..<offset + ls + rs]"
      by (rule upt_add_eq_append) simp
    then have "node_positions (Branch sv dm l r) = [offset..<offset + sz]"
      using rs(2) by (simp add: lpos rpos sp_def add.assoc)
    moreover have "mset (L' @ R') = mset M"
      using L' R' LR ys_mset by (metis mset_append)
    moreover have "partitioned pts (A @ (L' @ R') @ B) (Branch sv dm l r)"
      using lo hi lpart' rpart ids_l ids_r by simp
    moreover have "dm < dims \<longrightarrow> dims_below dims (Branch sv dm l r)"
      using ldims rdims by simp
    moreover have "splits_in pts (set M) (Branch sv dm l r)"
    proof -
      have sM: "set ys = set M" using ys_mset by (rule mset_eq_setD)
      have "set L \<subseteq> set M" "set R \<subseteq> set M"
        using sM by (auto simp: L_def R_def dest: in_set_takeD in_set_dropD)
      moreover have "ys ! ls \<in> set M"
        using sM ys_len ls(1) by (metis nth_mem)
      ultimately show ?thesis
        using lsplits rsplits splits_in_mono[of pts _ _ "set M"] by (auto simp: sv)
    qed
    ultimately show ?thesis using res by blast
  qed
qed

lemma SplitIndices_returns:
  assumes "SplitIndices nth_el pts dims mls offset sz dm indices = Some y"
  shows "0 < mls \<or> (mls = 0 \<and> sz = 0)"
proof (rule SplitIndices.raw_induct
    [where P = "\<lambda>nth_el pts dims mls offset sz dm indices y. 0 < mls \<or> (mls = 0 \<and> sz = 0)",
      OF _ assms])
  fix f :: "nth_element_fn \<Rightarrow> 'a points \<Rightarrow> nat \<Rightarrow> int \<Rightarrow> nat \<Rightarrow> nat \<Rightarrow> nat \<Rightarrow> nat list
     \<Rightarrow> ('a node \<times> nat list) option"
  fix nth_el pts dims mls offset sz dm indices y
  assume IH: "\<And>nth_el pts dims mls offset sz dm indices y.
                f nth_el pts dims mls offset sz dm indices = Some y \<Longrightarrow>
                0 < mls \<or> (mls = 0 \<and> sz = 0)"
  assume step: "(if int sz \<le> mls then Some (Leaf offset (offset + sz), indices)
        else let left_size = sz div 2; right_size = sz - left_size;
                 split_pos = offset + left_size;
                 indices1 =
                   nth_element_range nth_el
                    (\<lambda>a b. coord pts a dm < coord pts b dm) offset
                    split_pos (offset + sz) indices;
                 next_dim = if dm + 1 < dims then dm + 1 else 0;
                 split_value = coord pts (indices1 ! split_pos) dm
             in Option.bind
                 (f nth_el pts dims mls offset
                   left_size next_dim indices1)
                 (\<lambda>(l, indices2).
                     Option.bind
                      (f nth_el pts dims mls split_pos
                        right_size next_dim indices2)
                      (\<lambda>(r, indices3).
                          Some (Branch split_value dm l r, indices3)))) =
       Some y"
  show "0 < mls \<or> (mls = 0 \<and> sz = 0)"
  proof (rule ccontr)
    assume neg: "\<not> (0 < mls \<or> (mls = 0 \<and> sz = 0))"
    then have noleaf: "\<not> int sz \<le> mls" by auto
    with step have "\<exists>a b c y'. f nth_el pts dims mls a (sz - sz div 2) b c = Some y'"
      by (auto simp: Let_def bind_eq_Some_conv split: prod.splits) blast
    then obtain a b c y' where "f nth_el pts dims mls a (sz - sz div 2) b c = Some y'"
      by blast
    from IH[OF this] have "0 < mls \<or> (mls = 0 \<and> sz - sz div 2 = 0)" .
    with neg show False by auto
  qed
qed

lemma SplitIndices_diverges:
  "mls < 0 \<or> (mls = 0 \<and> 0 < sz) \<Longrightarrow> SplitIndices nth_el pts dims mls offset sz dm indices = None"
  using SplitIndices_returns[of nth_el pts dims mls offset sz dm indices]
  by (cases "SplitIndices nth_el pts dims mls offset sz dm indices") auto

subsection \<open>The constructed index\<close>

lemma KdTree_constructed:
  fixes pts :: "('a::linordered_idom) points"
  assumes spec: "nth_element_spec nth_el" and n: "0 < num_points pts" and mls: "1 \<le> mls"
  shows "\<exists>t. KdTree nth_el pts mls = Some (Inr t)
           \<and> tree_points t = pts
           \<and> tree_dimensions t = num_dimensions pts
           \<and> mset (tree_indices t) = mset [0..<num_points pts]
           \<and> node_positions (tree_root t) = [0..<num_points pts]
           \<and> partitioned pts (tree_indices t) (tree_root t)
           \<and> (0 < num_dimensions pts \<longrightarrow> dims_below (num_dimensions pts) (tree_root t))
           \<and> splits_in pts {..<num_points pts} (tree_root t)"
proof -
  from SplitIndices_correct[OF spec mls, of "[]" 0 "[0..<num_points pts]" "num_points pts" pts
      "num_dimensions pts" 0 "[]"]
  obtain nd M' where r: "MakeTree nth_el pts mls = Some (nd, M')"
    and m: "mset M' = mset [0..<num_points pts]"
    and pos: "node_positions nd = [0..<num_points pts]"
    and part: "partitioned pts M' nd"
    and db: "0 < num_dimensions pts \<longrightarrow> dims_below (num_dimensions pts) nd"
    and sp: "splits_in pts (set [0..<num_points pts]) nd"
    by (auto simp: MakeTree_def)
  have "set [0..<num_points pts] = {..<num_points pts}" by auto
  then show ?thesis
    using r m pos part db n sp by (simp add: KdTree_def)
qed

lemma KdTree_empty:
  "num_points pts = 0 \<Longrightarrow> 0 \<le> mls \<Longrightarrow> KdTree nth_el pts mls = Some (Inl AssertionFailed)"
  by (simp add: KdTree_def MakeTree_def SplitIndices_leaf)

lemma KdTree_diverges:
  "mls < 0 \<or> (mls = 0 \<and> 0 < num_points pts) \<Longrightarrow> KdTree nth_el pts mls = None"
  by (simp add: KdTree_def MakeTree_def SplitIndices_diverges)

lemma node_ids_root:
  "node_positions nd = [0..<length xs] \<Longrightarrow> node_ids xs nd = xs"
  by (simp add: node_ids_def map_nth)

text \<open>
  Claim C6 (coverage). For every constructed tree with \<open>N \<ge> 1\<close> points and
  \<open>max_leaf_size \<ge> 1\<close>: construction returns an index; the leaf ranges, read left to
  right, are exactly the positions \<open>0, \<dots>, N-1\<close> of the index permutation, each once
  and without overlap; and the point identifiers found there are exactly
  \<open>0, \<dots>, N-1\<close>, each once.
\<close>

theorem coverage:
  fixes pts :: "('a::linordered_idom) points"
  assumes "nth_element_spec nth_el" and "1 \<le> num_points pts" and "1 \<le> max_leaf_size"
  shows "\<exists>t. KdTree nth_el pts max_leaf_size = Some (Inr t)
           \<and> length (tree_indices t) = num_points pts
           \<and> node_positions (tree_root t) = [0..<num_points pts]
           \<and> mset (node_ids (tree_indices t) (tree_root t)) = mset [0..<num_points pts]"
proof -
  from KdTree_constructed[OF assms(1) _ assms(3), of pts] assms(2)
  obtain t where t: "KdTree nth_el pts max_leaf_size = Some (Inr t)"
    and m: "mset (tree_indices t) = mset [0..<num_points pts]"
    and pos: "node_positions (tree_root t) = [0..<num_points pts]"
    by auto
  have len: "length (tree_indices t) = num_points pts"
    using m by (metis size_mset length_upt diff_zero)
  with pos have "node_ids (tree_indices t) (tree_root t) = tree_indices t"
    by (simp add: node_ids_root)
  with t m pos len show ?thesis by auto
qed

theorem coverage_witness:
  "nth_element_spec nth_element_sort \<and> 1 \<le> num_points example_points \<and> (1::int) \<le> 1 \<and>
   (\<exists>t. KdTree nth_element_sort example_points 1 = Some (Inr t)
           \<and> length (tree_indices t) = num_points example_points
           \<and> node_positions (tree_root t) = [0..<num_points example_points]
           \<and> mset (node_ids (tree_indices t) (tree_root t)) = mset [0..<num_points example_points])"
proof -
  have h: "1 \<le> num_points example_points" by (simp add: example_points_def)
  show ?thesis
    using coverage[OF nth_element_sort_spec h, of 1] nth_element_sort_spec h by simp
qed

text \<open>
  Claim C4 (partition), as stated: every identifier under the right child of a branch has
  \<open>coordinate[dim] > split\<close>, strictly. It fails on two points \<open>0\<close> and \<open>3\<close> with
  \<open>max_leaf_size = 1\<close>: the split value is the coordinate of the point at the split
  position, and that point is the first of the right child.
\<close>

theorem partition_strict_counterexample:
  "KdTree nth_element_sort line_points 1 = Some (Inr line_tree_split) \<and>
   \<not> partitioned_strict line_points (tree_indices line_tree_split) (tree_root line_tree_split)"
  by (simp add: KdTree_def MakeTree_def SplitIndices.simps line_points_def line_tree_split_def
      nth_element_range_def node_ids_def upt_rec)

text \<open>
  Claim C4, amended. For every constructed tree (\<open>N \<ge> 1\<close>, \<open>max_leaf_size \<ge> 1\<close>, any
  coordinates) and every branch node, every identifier reachable under the left child has
  \<open>coordinate[dim] \<le> split\<close>, and every identifier reachable under the right child has
  \<open>coordinate[dim] \<ge> split\<close>.
\<close>

theorem partition_nonstrict:
  fixes pts :: "('a::linordered_idom) points"
  assumes "nth_element_spec nth_el" and "1 \<le> num_points pts" and "1 \<le> max_leaf_size"
  shows "\<exists>t. KdTree nth_el pts max_leaf_size = Some (Inr t)
           \<and> partitioned pts (tree_indices t) (tree_root t)"
  using KdTree_constructed[OF assms(1) _ assms(3), of pts] assms(2) by auto

theorem partition_nonstrict_witness:
  "nth_element_spec nth_element_sort \<and> 1 \<le> num_points example_points \<and> (1::int) \<le> 1 \<and>
   (\<exists>t. KdTree nth_element_sort example_points 1 = Some (Inr t)
           \<and> partitioned example_points (tree_indices t) (tree_root t))"
proof -
  have h: "1 \<le> num_points example_points" by (simp add: example_points_def)
  show ?thesis
    using partition_nonstrict[OF nth_element_sort_spec h, of 1] nth_element_sort_spec h by simp
qed

text \<open>
  Claim C7 (construction fails or succeeds), as stated: construction fails or aborts
  whenever the point set is empty or \<open>max_leaf_size < 1\<close>. With two points and
  \<open>max_leaf_size = 0\<close>, and with no points and \<open>max_leaf_size = -1\<close>, the constructor neither
  aborts nor produces an index: the recursion of \<open>SplitIndices\<close> does not return (with no
  points it never gets to the assertion).
\<close>

theorem construct_no_abort_counterexample:
  "KdTree nth_element_sort line_points 0 = None \<and>
   KdTree nth_element_sort no_points (- 1) = None"
  by (simp add: KdTree_diverges line_points_def)

text \<open>
  Claim C7, amended. Construction aborts on its assertion when the point set is empty and
  \<open>max_leaf_size \<ge> 0\<close>; for a non-empty point set and \<open>max_leaf_size \<ge> 1\<close> it succeeds and
  produces an index over the points. \<open>max_leaf_size\<close> is not validated: in every other case
  (\<open>max_leaf_size < 0\<close>, or \<open>max_leaf_size = 0\<close> with a non-empty point set) the recursion of
  \<open>SplitIndices\<close> never reaches a leaf and construction does not return.
\<close>

theorem construct_outcomes:
  fixes pts :: "('a::linordered_idom) points"
  shows "(num_points pts = 0 \<and> 0 \<le> max_leaf_size \<longrightarrow>
            KdTree nth_el pts max_leaf_size = Some (Inl AssertionFailed)) \<and>
         (nth_element_spec nth_el \<and> 1 \<le> num_points pts \<and> 1 \<le> max_leaf_size \<longrightarrow>
            (\<exists>t. KdTree nth_el pts max_leaf_size = Some (Inr t) \<and> tree_points t = pts)) \<and>
         (max_leaf_size < 0 \<or> (max_leaf_size = 0 \<and> 1 \<le> num_points pts) \<longrightarrow>
            KdTree nth_el pts max_leaf_size = None)"
proof (intro conjI impI)
  assume "num_points pts = 0 \<and> 0 \<le> max_leaf_size"
  then show "KdTree nth_el pts max_leaf_size = Some (Inl AssertionFailed)"
    by (simp add: KdTree_empty)
next
  assume a: "nth_element_spec nth_el \<and> 1 \<le> num_points pts \<and> 1 \<le> max_leaf_size"
  then show "\<exists>t. KdTree nth_el pts max_leaf_size = Some (Inr t) \<and> tree_points t = pts"
    using KdTree_constructed[of nth_el pts max_leaf_size] by auto
next
  assume "max_leaf_size < 0 \<or> (max_leaf_size = 0 \<and> 1 \<le> num_points pts)"
  then show "KdTree nth_el pts max_leaf_size = None"
    by (intro KdTree_diverges) auto
qed

theorem construct_outcomes_witness:
  "(num_points no_points = 0 \<and> (0::int) \<le> 1 \<and>
      KdTree nth_element_sort no_points 1 = Some (Inl AssertionFailed)) \<and>
   (nth_element_spec nth_element_sort \<and> 1 \<le> num_points example_points \<and> (1::int) \<le> 1 \<and>
      (\<exists>t. KdTree nth_element_sort example_points 1 = Some (Inr t) \<and> tree_points t = example_points)) \<and>
   ((0::int) = 0 \<and> 1 \<le> num_points line_points \<and> KdTree nth_element_sort line_points 0 = None) \<and>
   ((- 1::int) < 0 \<and> KdTree nth_element_sort no_points (- 1) = None)"
proof -
  have h0: "num_points no_points = 0" by (simp add: no_points_def)
  have h1: "1 \<le> num_points example_points" by (simp add: example_points_def)
  have h2: "1 \<le> num_points line_points" by (simp add: line_points_def)
  show ?thesis
    using construct_outcomes[of no_points 1 nth_element_sort]
      construct_outcomes[of example_points 1 nth_element_sort]
      construct_outcomes[of line_points 0 nth_element_sort]
      construct_outcomes[of no_points "- 1" nth_element_sort]
      nth_element_sort_spec h0 h1 h2
    by simp
qed

section \<open>Query traversal\<close>

subsection \<open>The index is only read\<close>

lemma SearchNn_leaf_fst: "fst (SearchNn_leaf norm visit p bound i e s) = fst s"
proof (induction norm visit p bound i e s rule: SearchNn_leaf.induct)
  case (1 norm visit p bound i e t v)
  then show ?case by (subst SearchNn_leaf.simps) (simp add: Let_def)
qed

lemma SearchNn_leaf_frame: "fst (SearchNn_leaf norm visit p bound i e (t, v)) = t"
  by (simp add: SearchNn_leaf_fst)

lemma SearchNn_rec_frame: "fst (SearchNn_rec norm visit vmax p nd (t, v)) = t"
proof (induction nd arbitrary: v)
  case (Leaf b e)
  then show ?case by (simp add: SearchNn_leaf_frame)
next
  case (Branch sv dm l r)
  obtain v1 where l1: "SearchNn_rec norm visit vmax p l (t, v) = (t, v1)"
    using Branch.IH(1)[of v] by (cases "SearchNn_rec norm visit vmax p l (t, v)") auto
  obtain v2 where r1: "SearchNn_rec norm visit vmax p r (t, v) = (t, v2)"
    using Branch.IH(2)[of v] by (cases "SearchNn_rec norm visit vmax p r (t, v)") auto
  obtain v3 where r2: "SearchNn_rec norm visit vmax p r (t, v1) = (t, v3)"
    using Branch.IH(2)[of v1] by (cases "SearchNn_rec norm visit vmax p r (t, v1)") auto
  obtain v4 where l2: "SearchNn_rec norm visit vmax p l (t, v2) = (t, v4)"
    using Branch.IH(1)[of v2] by (cases "SearchNn_rec norm visit vmax p l (t, v2)") auto
  show ?case by (simp add: Let_def l1 r1 r2 l2)
qed

lemma SearchNn_rec_state:
  "SearchNn_rec norm visit vmax p nd (t, v) = (t, snd (SearchNn_rec norm visit vmax p nd (t, v)))"
  using SearchNn_rec_frame[of norm visit vmax p nd t v] by (metis prod.collapse)

lemma SearchNn_leaf_state:
  "SearchNn_leaf norm visit p bound i e (t, v) = (t, snd (SearchNn_leaf norm visit p bound i e (t, v)))"
  using SearchNn_leaf_frame[of norm visit p bound i e t v] by (metis prod.collapse)

text \<open>The visitor after a node, as a function of the visitor before it.\<close>

lemma SearchNn_leaf_step:
  "i < e \<Longrightarrow>
   snd (SearchNn_leaf norm visit p bound i e (t, v)) =
   snd (SearchNn_leaf norm visit p bound (Suc i) e
          (t, if bound > MetricL2 norm (tree_points t) p (tree_indices t ! i)
              then visit v (tree_indices t ! i) (MetricL2 norm (tree_points t) p (tree_indices t ! i))
              else v))"
  by (subst SearchNn_leaf.simps) (simp add: Let_def)

lemma SearchNn_leaf_done:
  "\<not> i < e \<Longrightarrow> snd (SearchNn_leaf norm visit p bound i e (t, v)) = v"
  by (subst SearchNn_leaf.simps) simp

lemma SearchNn_rec_branch:
  "snd (SearchNn_rec norm visit vmax p (Branch sv dm l r) (t, v)) =
     (if p dm \<le> sv
      then let v1 = snd (SearchNn_rec norm visit vmax p l (t, v))
           in if vmax v1 > norm (norm (p dm - sv) * norm (p dm - sv))
              then snd (SearchNn_rec norm visit vmax p r (t, v1)) else v1
      else let v1 = snd (SearchNn_rec norm visit vmax p r (t, v))
           in if vmax v1 > norm (norm (p dm - sv) * norm (p dm - sv))
              then snd (SearchNn_rec norm visit vmax p l (t, v1)) else v1)"
proof -
  obtain v1 where l: "SearchNn_rec norm visit vmax p l (t, v) = (t, v1)"
    using SearchNn_rec_state[of norm visit vmax p l t v] by blast
  obtain v2 where r: "SearchNn_rec norm visit vmax p r (t, v) = (t, v2)"
    using SearchNn_rec_state[of norm visit vmax p r t v] by blast
  show ?thesis by (simp add: Let_def l r)
qed

lemma SearchNn_rec_leaf:
  "snd (SearchNn_rec norm visit vmax p (Leaf b e) (t, v)) =
   snd (SearchNn_leaf norm visit p (vmax v) b e (t, v))"
  by simp

declare SearchNn_rec.simps [simp del]

subsection \<open>The metric without overflow\<close>

lemma sq_sum_nonneg: "0 \<le> sq_sum pts p idx k"
  by (induction k) auto

lemma sq_le_sq_sum:
  "dm < k \<Longrightarrow> (p dm - coord pts idx dm) * (p dm - coord pts idx dm) \<le> sq_sum pts p idx k"
proof (induction k)
  case 0
  then show ?case by simp
next
  case (Suc k)
  show ?case
  proof (cases "dm = k")
    case True
    then show ?thesis using sq_sum_nonneg[of pts p idx k] by simp
  next
    case False
    then have "dm < k" using Suc.prems by simp
    from Suc.IH[OF this]
    have "(p dm - coord pts idx dm) * (p dm - coord pts idx dm) \<le> sq_sum pts p idx k" .
    moreover have "0 \<le> (p k - coord pts idx k) * (p k - coord pts idx k)" by simp
    ultimately have "(p dm - coord pts idx dm) * (p dm - coord pts idx dm)
        \<le> sq_sum pts p idx k + (p k - coord pts idx k) * (p k - coord pts idx k)"
      by (rule add_increasing2[rotated])
    then show ?thesis by simp
  qed
qed

lemma no_overflow_at:
  assumes "no_overflow norm pts p" and "i < num_points pts" and "k < num_dimensions pts"
  shows "norm (p k - coord pts i k) = p k - coord pts i k"
    and "norm ((p k - coord pts i k) * (p k - coord pts i k))
           = (p k - coord pts i k) * (p k - coord pts i k)"
    and "norm (sq_sum pts p i k + (p k - coord pts i k) * (p k - coord pts i k))
           = sq_sum pts p i (Suc k)"
  using assms by (auto simp: no_overflow_def)

lemma MetricL2_loop_exact:
  assumes "no_overflow norm pts p" and "idx < num_points pts"
  shows "k \<le> num_dimensions pts \<Longrightarrow>
         MetricL2_loop norm pts p idx k (sq_sum pts p idx k) = sq_sum pts p idx (num_dimensions pts)"
proof (induction "num_dimensions pts - k" arbitrary: k)
  case 0
  then show ?case by (subst MetricL2_loop.simps) simp
next
  case (Suc n)
  then have lt: "k < num_dimensions pts" and n: "n = num_dimensions pts - Suc k" by auto
  note ex = no_overflow_at[OF assms lt]
  have "MetricL2_loop norm pts p idx k (sq_sum pts p idx k)
          = MetricL2_loop norm pts p idx (Suc k) (sq_sum pts p idx (Suc k))"
    using lt by (subst MetricL2_loop.simps) (simp add: Let_def ex(1) ex(2) ex(3)[simplified])
  also have "\<dots> = sq_sum pts p idx (num_dimensions pts)"
    using Suc.hyps(1)[OF n] lt by simp
  finally show ?case .
qed

lemma MetricL2_exact:
  "no_overflow norm pts p \<Longrightarrow> idx < num_points pts \<Longrightarrow>
   MetricL2 norm pts p idx = sq_sum pts p idx (num_dimensions pts)"
  using MetricL2_loop_exact[of norm pts p idx 0] by (simp add: MetricL2_def)

text \<open>
  For a 32-bit \<open>int\<close> it is enough that the exact squared distance of every point to the
  query fits.
\<close>

lemma wrap32_id: "- 2147483648 \<le> x \<Longrightarrow> x \<le> 2147483647 \<Longrightarrow> wrap32 x = x"
  by (simp add: wrap32_def)

lemma int_abs_le_square: "\<bar>x\<bar> \<le> x * (x::int)"
proof (cases "x = 0")
  case True
  then show ?thesis by simp
next
  case False
  then have "1 \<le> \<bar>x\<bar>" by simp
  then have "\<bar>x\<bar> * 1 \<le> \<bar>x\<bar> * \<bar>x\<bar>" by (intro mult_left_mono) simp_all
  then show ?thesis by (simp add: abs_mult_self_eq)
qed

lemma no_overflow_wrap32:
  fixes pts :: "int points"
  assumes "\<forall>i < num_points pts. sq_sum pts p i (num_dimensions pts) \<le> 2147483647"
  shows "no_overflow wrap32 pts p"
  unfolding no_overflow_def
proof (intro ballI)
  fix i k assume "i \<in> set [0..<num_points pts]" "k \<in> set [0..<num_dimensions pts]"
  then have i: "i < num_points pts" and k: "k < num_dimensions pts" by auto
  let ?v = "p k - coord pts i k"
  have top: "sq_sum pts p i (num_dimensions pts) \<le> 2147483647" using assms i by blast
  have "sq_sum pts p i (Suc k) \<le> sq_sum pts p i (num_dimensions pts)"
  proof -
    have "\<And>m. sq_sum pts p i (Suc k) \<le> sq_sum pts p i (Suc k + m)"
    proof -
      fix m show "sq_sum pts p i (Suc k) \<le> sq_sum pts p i (Suc k + m)"
        by (induction m) (auto intro: add_increasing2)
    qed
    from this[of "num_dimensions pts - Suc k"] k show ?thesis by simp
  qed
  with top have s: "sq_sum pts p i k + ?v * ?v \<le> 2147483647" by simp
  have sq: "0 \<le> ?v * ?v" by simp
  have s0: "0 \<le> sq_sum pts p i k" by (rule sq_sum_nonneg)
  have vv: "?v * ?v \<le> 2147483647" using s s0 by linarith
  have av: "\<bar>?v\<bar> \<le> 2147483647" using int_abs_le_square[of ?v] vv by linarith
  have "wrap32 ?v = ?v" using av by (intro wrap32_id) linarith+
  moreover have "wrap32 (?v * ?v) = ?v * ?v" using vv sq by (intro wrap32_id) linarith+
  moreover have "wrap32 (sq_sum pts p i k + ?v * ?v) = sq_sum pts p i k + ?v * ?v"
    using s s0 sq by (intro wrap32_id) linarith+
  ultimately show "wrap32 ?v = ?v \<and> wrap32 (?v * ?v) = ?v * ?v \<and>
      wrap32 (sq_sum pts p i k + ?v * ?v) = sq_sum pts p i k + ?v * ?v"
    by blast
qed

subsection \<open>Pruning and the radius visitor\<close>

lemma square_mono_right:
  fixes v :: "'a::linordered_idom"
  assumes "v \<le> sv" "sv \<le> c"
  shows "(v - sv) * (v - sv) \<le> (v - c) * (v - c)"
proof -
  have "(sv - v) * (sv - v) \<le> (c - v) * (c - v)"
    using assms by (intro mult_mono) auto
  moreover have "(v - sv) * (v - sv) = (sv - v) * (sv - v)" by (simp add: algebra_simps)
  moreover have "(v - c) * (v - c) = (c - v) * (c - v)" by (simp add: algebra_simps)
  ultimately show ?thesis by simp
qed

lemma square_mono_left:
  fixes v :: "'a::linordered_idom"
  assumes "sv \<le> v" "c \<le> sv"
  shows "(v - sv) * (v - sv) \<le> (v - c) * (v - c)"
  using assms by (intro mult_mono) auto

lemma SearchRadius_leaf:
  "snd (SearchNn_leaf norm SearchRadius_visit p r i e (t, v)) =
     v\<lparr> sr_n := sr_n v @ within_radius norm (tree_points t) p r (map (\<lambda>j. tree_indices t ! j) [i..<e]) \<rparr>"
proof (induction "e - i" arbitrary: i v)
  case 0
  then show ?case by (simp add: SearchNn_leaf_done within_radius_def)
next
  case (Suc n)
  then have lt: "i < e" and n: "n = e - Suc i" by auto
  show ?case
    using Suc.hyps(1)[OF n]
    by (simp add: SearchNn_leaf_step[OF lt] upt_conv_Cons[OF lt] within_radius_def SearchRadius_visit_def)
qed

lemma SearchRadius_rec:
  fixes t :: "('a::linordered_idom) kd_tree"
  assumes nov: "no_overflow norm (tree_points t) p"
  shows "partitioned (tree_points t) (tree_indices t) nd \<Longrightarrow>
         dims_below (num_dimensions (tree_points t)) nd \<Longrightarrow>
         splits_in (tree_points t) {..<num_points (tree_points t)} nd \<Longrightarrow>
         set (node_ids (tree_indices t) nd) \<subseteq> {..<num_points (tree_points t)} \<Longrightarrow>
         sr_radius (snd (SearchNn_rec norm SearchRadius_visit SearchRadius_max p nd (t, v)))
           = sr_radius v \<and>
         mset (sr_n (snd (SearchNn_rec norm SearchRadius_visit SearchRadius_max p nd (t, v)))) =
           mset (sr_n v)
           + mset (within_radius norm (tree_points t) p (sr_radius v) (node_ids (tree_indices t) nd))"
proof (induction nd arbitrary: v)
  case (Leaf b e)
  have "SearchRadius_max v = sr_radius v" by (simp add: SearchRadius_max_def)
  then show ?case
    by (simp add: SearchNn_rec_leaf SearchRadius_leaf node_ids_def)
next
  case (Branch sv dm l r)
  let ?pts = "tree_points t"
  let ?M = "MetricL2 norm ?pts p"
  let ?dd = "norm (norm (p dm - sv) * norm (p dm - sv))"
  have ids: "node_ids (tree_indices t) (Branch sv dm l r)
               = node_ids (tree_indices t) l @ node_ids (tree_indices t) r"
    by (simp add: node_ids_def)
  have pl: "partitioned ?pts (tree_indices t) l"
    and pr: "partitioned ?pts (tree_indices t) r"
    and dl: "dims_below (num_dimensions ?pts) l"
    and dr: "dims_below (num_dimensions ?pts) r"
    and dm: "dm < num_dimensions ?pts"
    and sl: "splits_in ?pts {..<num_points ?pts} l"
    and sr: "splits_in ?pts {..<num_points ?pts} r"
    and lo: "\<forall>i \<in> set (node_ids (tree_indices t) l). coord ?pts i dm \<le> sv"
    and hi: "\<forall>i \<in> set (node_ids (tree_indices t) r). sv \<le> coord ?pts i dm"
    using Branch.prems(1,2,3) by auto
  have il: "set (node_ids (tree_indices t) l) \<subseteq> {..<num_points ?pts}"
    and ir: "set (node_ids (tree_indices t) r) \<subseteq> {..<num_points ?pts}"
    using Branch.prems(4) by (auto simp: ids)
  obtain j where j: "j < num_points ?pts" "sv = coord ?pts j dm"
    using Branch.prems(3) by auto
  have dd: "?dd = (p dm - sv) * (p dm - sv)"
    using no_overflow_at(1,2)[OF nov j(1) dm] by (simp add: j(2))
  note IHl = Branch.IH(1)[OF pl dl sl il]
  note IHr = Branch.IH(2)[OF pr dr sr ir]
  have metric: "?M i = sq_sum ?pts p i (num_dimensions ?pts)" if "i < num_points ?pts" for i
    using MetricL2_exact[OF nov that] .
  have far_r: "within_radius norm ?pts p rad (node_ids (tree_indices t) r) = []"
    if "p dm \<le> sv" "\<not> ?dd < rad" for rad
  proof -
    have "\<not> ?M i < rad" if i: "i \<in> set (node_ids (tree_indices t) r)" for i
    proof -
      have "?dd \<le> (p dm - coord ?pts i dm) * (p dm - coord ?pts i dm)"
        using square_mono_right[OF \<open>p dm \<le> sv\<close>] hi i by (simp add: dd)
      also have "\<dots> \<le> sq_sum ?pts p i (num_dimensions ?pts)" by (rule sq_le_sq_sum[OF dm])
      also have "\<dots> = ?M i" using metric[of i] ir i by auto
      finally show ?thesis using \<open>\<not> ?dd < rad\<close> by simp
    qed
    then show ?thesis by (auto simp: within_radius_def filter_empty_conv)
  qed
  have far_l: "within_radius norm ?pts p rad (node_ids (tree_indices t) l) = []"
    if "\<not> p dm \<le> sv" "\<not> ?dd < rad" for rad
  proof -
    have "\<not> ?M i < rad" if i: "i \<in> set (node_ids (tree_indices t) l)" for i
    proof -
      have "?dd \<le> (p dm - coord ?pts i dm) * (p dm - coord ?pts i dm)"
        using square_mono_left[of sv "p dm" "coord ?pts i dm"] lo i
          \<open>\<not> p dm \<le> sv\<close> by (auto simp: dd)
      also have "\<dots> \<le> sq_sum ?pts p i (num_dimensions ?pts)" by (rule sq_le_sq_sum[OF dm])
      also have "\<dots> = ?M i" using metric[of i] il i by auto
      finally show ?thesis using \<open>\<not> ?dd < rad\<close> by simp
    qed
    then show ?thesis by (auto simp: within_radius_def filter_empty_conv)
  qed
  have within_app: "\<And>xs ys. within_radius norm ?pts p (sr_radius v) (xs @ ys)
      = within_radius norm ?pts p (sr_radius v) xs @ within_radius norm ?pts p (sr_radius v) ys"
    by (simp add: within_radius_def)
  have mx: "\<And>u. (?dd < SearchRadius_max u) = (?dd < sr_radius u)"
    by (simp add: SearchRadius_max_def)
  let ?go = "\<lambda>nd u. snd (SearchNn_rec norm SearchRadius_visit SearchRadius_max p nd (t, u))"
  show ?case
  proof (cases "p dm \<le> sv")
    case True
    let ?v1 = "?go l v"
    have v1: "sr_radius ?v1 = sr_radius v" using IHl[of v] by simp
    show ?thesis
    proof (cases "?dd < sr_radius v")
      case go: True
      have "?go (Branch sv dm l r) v = ?go r ?v1"
        using True go v1 mx[of ?v1] by (simp add: SearchNn_rec_branch Let_def)
      then show ?thesis
        using IHl[of v] IHr[of ?v1] by (simp add: ids within_app)
    next
      case stop: False
      have "?go (Branch sv dm l r) v = ?v1"
        using True stop v1 mx[of ?v1] by (simp add: SearchNn_rec_branch Let_def)
      then show ?thesis
        using IHl[of v] far_r[OF True stop] by (simp add: ids within_app)
    qed
  next
    case False
    let ?v1 = "?go r v"
    have v1: "sr_radius ?v1 = sr_radius v" using IHr[of v] by simp
    show ?thesis
    proof (cases "?dd < sr_radius v")
      case go: True
      have "?go (Branch sv dm l r) v = ?go l ?v1"
        using False go v1 mx[of ?v1] by (simp add: SearchNn_rec_branch Let_def)
      then show ?thesis
        using IHr[of v] IHl[of ?v1] by (simp add: ids within_app)
    next
      case stop: False
      have "?go (Branch sv dm l r) v = ?v1"
        using False stop v1 mx[of ?v1] by (simp add: SearchNn_rec_branch Let_def)
      then show ?thesis
        using IHr[of v] far_l[OF False stop] by (simp add: ids within_app)
    qed
  qed
qed

subsection \<open>Two runs of the traversal side by side\<close>

lemma SearchNn_leaf_related:
  assumes step: "\<And>v v' idx. R v v' \<Longrightarrow>
      R (visit v idx (MetricL2 norm (tree_points t) p idx)) (visit' v' idx (MetricL2 norm (tree_points t) p idx))"
    and "R v v'"
  shows "R (snd (SearchNn_leaf norm visit p bound i e (t, v)))
           (snd (SearchNn_leaf norm visit' p bound i e (t, v')))"
  using assms(2)
proof (induction "e - i" arbitrary: i v v')
  case 0
  then show ?case by (simp add: SearchNn_leaf_done)
next
  case (Suc n)
  then have lt: "i < e" and n: "n = e - Suc i" by auto
  show ?case
    using Suc.hyps(1)[OF n] step Suc.prems
    by (simp add: SearchNn_leaf_step[OF lt])
qed

lemma SearchNn_rec_related:
  assumes step: "\<And>v v' idx. R v v' \<Longrightarrow>
      R (visit v idx (MetricL2 norm (tree_points t) p idx)) (visit' v' idx (MetricL2 norm (tree_points t) p idx))"
    and mx: "\<And>v v'. R v v' \<Longrightarrow> vmax v = vmax' v'"
    and "R v v'"
  shows "R (snd (SearchNn_rec norm visit vmax p nd (t, v)))
           (snd (SearchNn_rec norm visit' vmax' p nd (t, v')))"
  using assms(3)
proof (induction nd arbitrary: v v')
  case (Leaf b e)
  then show ?case
    using SearchNn_leaf_related[where R = R and visit = visit and visit' = visit' and v = v and v' = v'
        and norm = norm and t = t and p = p and bound = "vmax v" and i = b and e = e] step mx[OF Leaf.prems]
    by (simp add: SearchNn_rec_leaf)
next
  case (Branch sv dm l r)
  let ?go = "\<lambda>nd u. snd (SearchNn_rec norm visit vmax p nd (t, u))"
  let ?go' = "\<lambda>nd u. snd (SearchNn_rec norm visit' vmax' p nd (t, u))"
  have l1: "R (?go l v) (?go' l v')" by (rule Branch.IH(1)[OF Branch.prems])
  have r1: "R (?go r v) (?go' r v')" by (rule Branch.IH(2)[OF Branch.prems])
  have r2: "R (?go r (?go l v)) (?go' r (?go' l v'))" by (rule Branch.IH(2)[OF l1])
  have l2: "R (?go l (?go r v)) (?go' l (?go' r v'))" by (rule Branch.IH(1)[OF r1])
  show ?case
    using l1 r1 r2 l2 mx[OF l1] mx[OF r1]
    by (simp add: SearchNn_rec_branch Let_def)
qed

lemma SearchRadius_snd:
  "snd (SearchRadius norm p radius n t) =
   sr_n (snd (SearchNn_rec norm SearchRadius_visit SearchRadius_max p (tree_root t)
               (t, SearchRadius_init radius n)))"
  by (simp add: SearchRadius_def split: prod.splits)

lemma mset_within_radius:
  assumes "mset xs = mset ys"
  shows "mset (within_radius norm pts p r xs) = mset (within_radius norm pts p r ys)"
proof -
  have "mset (within_radius norm pts p r xs)
          = filter_mset (\<lambda>(i, d). d < r) (image_mset (\<lambda>i. (i, MetricL2 norm pts p i)) (mset xs))"
    by (simp add: within_radius_def)
  also have "\<dots> = filter_mset (\<lambda>(i, d). d < r) (image_mset (\<lambda>i. (i, MetricL2 norm pts p i)) (mset ys))"
    using assms by simp
  also have "\<dots> = mset (within_radius norm pts p r ys)"
    by (simp add: within_radius_def)
  finally show ?thesis .
qed

lemma fst_set_within_radius:
  "fst ` set (within_radius norm pts p r ids) = {i \<in> set ids. MetricL2 norm pts p i < r}"
  by (auto simp: within_radius_def image_iff)

lemma far_tree_built: "KdTree nth_element_sort far_points 1 = Some (Inr far_tree)"
  by (simp add: KdTree_def MakeTree_def SplitIndices.simps far_points_def far_tree_def
      nth_element_range_def upt_rec)

text \<open>
  Claim C5 (radius search), as stated: for every point set, query and squared radius the
  result is exactly the set of identifiers whose metric distance is below the radius. It
  fails for a 32-bit \<open>int\<close> \<open>Scalar\<close> on the points \<open>(0, 0)\<close> and \<open>(10, 46341)\<close> with the query
  at the origin and radius \<open>50\<close>: the metric of the second point overflows to
  \<open>-2147478915\<close>, which is below the radius, so brute force with the metric lists both
  points; the search prunes the second at the split (\<open>d * d = 100\<close>) and returns the first
  only.
\<close>

theorem radius_search_overflow_counterexample:
  "KdTree nth_element_sort far_points 1 = Some (Inr far_tree) \<and>
   snd (SearchRadius wrap32 origin_query 50 [] far_tree) = [(0, 0)] \<and>
   within_radius wrap32 far_points origin_query 50 [0..<num_points far_points]
     = [(0, 0), (1, - 2147478915)]"
proof -
  have m: "MetricL2 wrap32 far_points origin_query 0 = 0"
    "MetricL2 wrap32 far_points origin_query (Suc 0) = - 2147478915"
    by (simp_all add: MetricL2_def MetricL2_loop.simps far_points_def origin_query_def
        wrap32_def)
  have q: "origin_query 0 = 0" by (simp add: origin_query_def)
  have "snd (SearchRadius wrap32 origin_query 50 [] far_tree) = [(0, 0)]"
    by (simp add: m q SearchRadius_def SearchNn_rec.simps SearchNn_leaf.simps far_tree_def
        SearchRadius_init_def SearchRadius_visit_def SearchRadius_max_def wrap32_def)
  moreover have "within_radius wrap32 far_points origin_query 50 [0..<num_points far_points]
      = [(0, 0), (1, - 2147478915)]"
  proof -
    have n: "num_points far_points = 2" by (simp add: far_points_def)
    show ?thesis by (simp add: within_radius_def m n upt_rec)
  qed
  ultimately show ?thesis using far_tree_built by simp
qed

text \<open>
  Claim C5, amended. For every non-empty point set (of positive dimension), every query
  point and every squared radius for which the distance computations do not overflow (every
  coordinate difference between the query and an indexed point, its square, and every
  running sum of the metric is representable in \<open>Scalar\<close>), on the index built with any
  \<open>max_leaf_size \<ge> 1\<close>, \<open>SearchRadius\<close> returns exactly the identifiers whose L2 metric
  distance to the query is strictly less than the radius, each once and paired with its
  distance: the result is a rearrangement of the brute-force list over all \<open>N\<close> identifiers.
\<close>

theorem radius_search_exact:
  fixes pts :: "('a::linordered_idom) points"
  assumes "nth_element_spec nth_el" and "1 \<le> num_points pts" and "1 \<le> num_dimensions pts"
    and "1 \<le> max_leaf_size" and "no_overflow norm pts p"
  shows "\<exists>t. KdTree nth_el pts max_leaf_size = Some (Inr t) \<and>
           mset (snd (SearchRadius norm p radius n t))
             = mset (within_radius norm pts p radius [0..<num_points pts]) \<and>
           fst ` set (snd (SearchRadius norm p radius n t))
             = {i. i < num_points pts \<and> MetricL2 norm pts p i < radius}"
proof -
  from KdTree_constructed[OF assms(1) _ assms(4), of pts] assms(2,3)
  obtain t where t: "KdTree nth_el pts max_leaf_size = Some (Inr t)"
    and pts: "tree_points t = pts"
    and m: "mset (tree_indices t) = mset [0..<num_points pts]"
    and pos: "node_positions (tree_root t) = [0..<num_points pts]"
    and part: "partitioned pts (tree_indices t) (tree_root t)"
    and db: "dims_below (num_dimensions pts) (tree_root t)"
    and sp: "splits_in pts {..<num_points pts} (tree_root t)"
    by auto
  have len: "length (tree_indices t) = num_points pts"
    using m by (metis size_mset length_upt diff_zero)
  have ids: "node_ids (tree_indices t) (tree_root t) = tree_indices t"
    using pos len by (simp add: node_ids_root)
  have "set (tree_indices t) = set [0..<num_points pts]"
    using m by (rule mset_eq_setD)
  then have sub: "set (node_ids (tree_indices t) (tree_root t)) \<subseteq> {..<num_points (tree_points t)}"
    by (auto simp: ids pts)
  have nov: "no_overflow norm (tree_points t) p" using assms(5) pts by simp
  have "mset (snd (SearchRadius norm p radius n t))
          = mset (within_radius norm pts p radius (tree_indices t))"
    using SearchRadius_rec[OF nov _ _ _ sub, of "SearchRadius_init radius n"] part db sp pts ids
    by (simp add: SearchRadius_snd SearchRadius_init_def)
  then have ms: "mset (snd (SearchRadius norm p radius n t))
          = mset (within_radius norm pts p radius [0..<num_points pts])"
    using mset_within_radius[OF m] by simp
  have "set (snd (SearchRadius norm p radius n t))
          = set (within_radius norm pts p radius [0..<num_points pts])"
    using ms by (rule mset_eq_setD)
  then have "fst ` set (snd (SearchRadius norm p radius n t))
          = {i. i < num_points pts \<and> MetricL2 norm pts p i < radius}"
    by (simp add: fst_set_within_radius)
  with t ms show ?thesis by blast
qed

theorem radius_search_exact_witness:
  "nth_element_spec nth_element_sort \<and> 1 \<le> num_points example_points \<and>
   1 \<le> num_dimensions example_points \<and> (1::int) \<le> 1 \<and>
   no_overflow wrap32 example_points example_query \<and>
   (\<exists>t. KdTree nth_element_sort example_points 1 = Some (Inr t) \<and>
        mset (snd (SearchRadius wrap32 example_query 5 [] t))
          = mset (within_radius wrap32 example_points example_query 5
                    [0..<num_points example_points]) \<and>
        fst ` set (snd (SearchRadius wrap32 example_query 5 [] t))
          = {i. i < num_points example_points
                \<and> MetricL2 wrap32 example_points example_query i < 5})"
proof -
  have h1: "1 \<le> num_points example_points" by (simp add: example_points_def)
  have h2: "1 \<le> num_dimensions example_points" by (simp add: example_points_def)
  have h3: "no_overflow wrap32 example_points example_query"
    by (simp add: no_overflow_def example_points_def example_query_def wrap32_def upt_rec)
  show ?thesis
    using radius_search_exact[OF nth_element_sort_spec h1 h2 _ h3, of 1 5 "[]"]
      nth_element_sort_spec h1 h2 h3 by simp
qed

section \<open>The \<open>SearchKnn\<close> visitor\<close>

lemma InsertSorted_loop_basic:
  "fst (InsertSorted_loop d i knn) \<le> i \<and>
   length (snd (InsertSorted_loop d i knn)) = length knn \<and>
   (\<forall>m. i < m \<longrightarrow> snd (InsertSorted_loop d i knn) ! m = knn ! m)"
proof (induction i arbitrary: knn)
  case 0
  then show ?case by simp
next
  case (Suc j)
  show ?case
  proof (cases "d < snd (knn ! j)")
    case True
    then show ?thesis using Suc[of "knn[Suc j := knn ! j]"] by auto
  next
    case False
    then show ?thesis by simp
  qed
qed

lemma InsertSorted_loop_keeps:
  assumes "i < length knn" and "\<forall>m < i. Q (knn ! m)"
  shows "\<forall>m \<le> i. m \<noteq> fst (InsertSorted_loop d i knn) \<longrightarrow> Q (snd (InsertSorted_loop d i knn) ! m)"
  using assms
proof (induction i arbitrary: knn)
  case 0
  then show ?case by simp
next
  case (Suc j)
  show ?case
  proof (cases "d < snd (knn ! j)")
    case True
    let ?knn = "knn[Suc j := knn ! j]"
    have pre: "j < length ?knn" "\<forall>m < j. Q (?knn ! m)"
      using Suc.prems by auto
    note IH = Suc.IH[OF pre]
    have top: "snd (InsertSorted_loop d j ?knn) ! Suc j = knn ! j"
      using InsertSorted_loop_basic[of d j ?knn] Suc.prems by simp
    have f: "fst (InsertSorted_loop d j ?knn) \<le> j"
      using InsertSorted_loop_basic[of d j ?knn] by simp
    show ?thesis
    proof (intro allI impI)
      fix m assume m: "m \<le> Suc j" "m \<noteq> fst (InsertSorted_loop d (Suc j) knn)"
      show "Q (snd (InsertSorted_loop d (Suc j) knn) ! m)"
      proof (cases "m = Suc j")
        case True
        then show ?thesis using \<open>d < snd (knn ! j)\<close> top Suc.prems by simp
      next
        case False
        then show ?thesis using m IH \<open>d < snd (knn ! j)\<close> by simp
      qed
    qed
  next
    case False
    then show ?thesis using Suc.prems by (auto simp: less_Suc_eq_le le_less)
  qed
qed

lemma InsertSorted_loop_agree:
  assumes "length knn = length knn'" and "i < length knn" and "\<forall>m < i. knn ! m = knn' ! m"
  shows "fst (InsertSorted_loop d i knn) = fst (InsertSorted_loop d i knn') \<and>
         (\<forall>m \<le> i. m \<noteq> fst (InsertSorted_loop d i knn) \<longrightarrow>
            snd (InsertSorted_loop d i knn) ! m = snd (InsertSorted_loop d i knn') ! m)"
  using assms
proof (induction i arbitrary: knn knn')
  case 0
  then show ?case by simp
next
  case (Suc j)
  have same: "knn ! j = knn' ! j" using Suc.prems by simp
  show ?case
  proof (cases "d < snd (knn ! j)")
    case True
    let ?a = "knn[Suc j := knn ! j]"
    let ?b = "knn'[Suc j := knn' ! j]"
    have pre: "length ?a = length ?b" "j < length ?a" "\<forall>m < j. ?a ! m = ?b ! m"
      using Suc.prems by auto
    note IH = Suc.IH[OF pre]
    have topa: "snd (InsertSorted_loop d j ?a) ! Suc j = knn ! j"
      using InsertSorted_loop_basic[of d j ?a] Suc.prems by simp
    have topb: "snd (InsertSorted_loop d j ?b) ! Suc j = knn' ! j"
      using InsertSorted_loop_basic[of d j ?b] Suc.prems by simp
    show ?thesis
    proof (intro conjI allI impI)
      show "fst (InsertSorted_loop d (Suc j) knn) = fst (InsertSorted_loop d (Suc j) knn')"
        using True same IH by simp
    next
      fix m assume m: "m \<le> Suc j" "m \<noteq> fst (InsertSorted_loop d (Suc j) knn)"
      show "snd (InsertSorted_loop d (Suc j) knn) ! m = snd (InsertSorted_loop d (Suc j) knn') ! m"
      proof (cases "m = Suc j")
        case True
        then show ?thesis using \<open>d < snd (knn ! j)\<close> same topa topb by simp
      next
        case False
        then show ?thesis using m IH \<open>d < snd (knn ! j)\<close> same by simp
      qed
    qed
  next
    case False
    then show ?thesis using Suc.prems same by (auto simp: less_Suc_eq_le le_less)
  qed
qed

lemma InsertSorted_unfold:
  "InsertSorted v idx d =
     v\<lparr> knn_vec := (snd (InsertSorted_loop d (knn_count v - 1) (knn_vec v)))
                        [fst (InsertSorted_loop d (knn_count v - 1) (knn_vec v)) := (idx, d)] \<rparr>"
  by (simp add: InsertSorted_def split: prod.splits)

lemma InsertSorted_agree:
  assumes k: "knn_k v = knn_k v'" and c: "knn_count v = knn_count v'"
    and c1: "1 \<le> knn_count v" and ck: "knn_count v \<le> knn_k v"
    and len: "length (knn_vec v) = knn_k v" "length (knn_vec v') = knn_k v"
    and pre: "\<forall>m < knn_count v - 1. knn_vec v ! m = knn_vec v' ! m"
    and last: "knn_count v < knn_k v \<longrightarrow>
                 snd (knn_vec v ! (knn_k v - 1)) = snd (knn_vec v' ! (knn_k v - 1))"
  shows "knn_agree (InsertSorted v idx d) (InsertSorted v' idx d)"
proof -
  define i0 where "i0 = knn_count v - 1"
  define f where "f = fst (InsertSorted_loop d i0 (knn_vec v))"
  define res where "res = snd (InsertSorted_loop d i0 (knn_vec v))"
  define res' where "res' = snd (InsertSorted_loop d i0 (knn_vec v'))"
  have i0: "i0 < length (knn_vec v)" "Suc i0 = knn_count v"
    using c1 ck len by (auto simp: i0_def)
  have basic: "f \<le> i0" "length res = knn_k v" "\<And>m. i0 < m \<Longrightarrow> res ! m = knn_vec v ! m"
    using InsertSorted_loop_basic[of d i0 "knn_vec v"] len by (auto simp: f_def res_def)
  have basic': "length res' = knn_k v" "\<And>m. i0 < m \<Longrightarrow> res' ! m = knn_vec v' ! m"
    using InsertSorted_loop_basic[of d i0 "knn_vec v'"] len by (auto simp: res'_def)
  have agree: "fst (InsertSorted_loop d i0 (knn_vec v')) = f"
    "\<And>m. m \<le> i0 \<Longrightarrow> m \<noteq> f \<Longrightarrow> res ! m = res' ! m"
    using InsertSorted_loop_agree[of "knn_vec v" "knn_vec v'" i0 d] len i0 pre
    by (auto simp: f_def res_def res'_def i0_def)
  have out: "InsertSorted v idx d = v\<lparr> knn_vec := res[f := (idx, d)] \<rparr>"
    by (simp add: InsertSorted_unfold f_def res_def i0_def)
  have "InsertSorted v' idx d =
          v'\<lparr> knn_vec := res'[fst (InsertSorted_loop d i0 (knn_vec v')) := (idx, d)] \<rparr>"
    unfolding res'_def i0_def c by (rule InsertSorted_unfold)
  then have out': "InsertSorted v' idx d = v'\<lparr> knn_vec := res'[f := (idx, d)] \<rparr>"
    by (simp only: agree(1))
  have nth_eq: "res[f := (idx, d)] ! m = res'[f := (idx, d)] ! m" if "m \<le> i0" for m
  proof (cases "m = f")
    case True
    then show ?thesis using basic basic' i0 len by simp
  next
    case False
    then show ?thesis using agree(2)[OF that] by simp
  qed
  have tk: "take (knn_count v) (res[f := (idx, d)]) = take (knn_count v) (res'[f := (idx, d)])"
    using basic basic' ck nth_eq i0 by (intro nth_take_lemma) auto
  have lst: "snd (res[f := (idx, d)] ! (knn_k v - 1)) = snd (res'[f := (idx, d)] ! (knn_k v - 1))"
  proof (cases "knn_count v < knn_k v")
    case True
    then have "i0 < knn_k v - 1" using i0 by simp
    then show ?thesis using basic basic' last True by simp
  next
    case False
    then have "knn_k v - 1 \<le> i0" using ck i0 by simp
    then show ?thesis using nth_eq by simp
  qed
  show ?thesis
    using k c ck c1 basic basic' tk lst
    by (simp add: knn_agree_def out out')
qed

lemma InsertSorted_genuine:
  assumes c1: "1 \<le> knn_count v" and ck: "knn_count v \<le> length (knn_vec v)"
    and pre: "\<forall>m < knn_count v - 1. snd (knn_vec v ! m) = dist (fst (knn_vec v ! m))"
    and d: "d = dist idx"
  shows "knn_genuine dist (InsertSorted v idx d)"
proof -
  define i0 where "i0 = knn_count v - 1"
  define f where "f = fst (InsertSorted_loop d i0 (knn_vec v))"
  define res where "res = snd (InsertSorted_loop d i0 (knn_vec v))"
  have i0: "i0 < length (knn_vec v)" "Suc i0 = knn_count v"
    using c1 ck by (auto simp: i0_def)
  have basic: "f \<le> i0" "length res = length (knn_vec v)"
    using InsertSorted_loop_basic[of d i0 "knn_vec v"] by (auto simp: f_def res_def)
  have keeps: "\<And>m. m \<le> i0 \<Longrightarrow> m \<noteq> f \<Longrightarrow> snd (res ! m) = dist (fst (res ! m))"
    using InsertSorted_loop_keeps[of i0 "knn_vec v" "\<lambda>e. snd e = dist (fst e)" d] i0 pre
    by (auto simp: f_def res_def i0_def)
  have out: "InsertSorted v idx d = v\<lparr> knn_vec := res[f := (idx, d)] \<rparr>"
    by (simp add: InsertSorted_unfold f_def res_def i0_def)
  have "snd (res[f := (idx, d)] ! m) = dist (fst (res[f := (idx, d)] ! m))" if "m < knn_count v" for m
  proof (cases "m = f")
    case True
    then show ?thesis using basic i0 d by simp
  next
    case False
    then show ?thesis using keeps[of m] that i0 by simp
  qed
  then show ?thesis by (simp add: knn_genuine_def out)
qed

lemma SearchKnn_visit_related:
  assumes "knn_agree v v' \<and> knn_genuine dist v"
  shows "knn_agree (SearchKnn_visit v idx (dist idx)) (SearchKnn_visit v' idx (dist idx)) \<and>
         knn_genuine dist (SearchKnn_visit v idx (dist idx))"
proof -
  have a: "knn_k v = knn_k v'" "knn_count v = knn_count v'" "knn_count v \<le> knn_k v"
    "1 \<le> knn_k v" "length (knn_vec v) = knn_k v" "length (knn_vec v') = knn_k v"
    "take (knn_count v) (knn_vec v) = take (knn_count v) (knn_vec v')"
    "snd (knn_vec v ! (knn_k v - 1)) = snd (knn_vec v' ! (knn_k v - 1))"
    and g: "\<forall>m < knn_count v. snd (knn_vec v ! m) = dist (fst (knn_vec v ! m))"
    using assms by (auto simp: knn_agree_def knn_genuine_def)
  have nth_eq: "knn_vec v ! m = knn_vec v' ! m" if "m < knn_count v" for m
    using a(7) that by (metis nth_take)
  show ?thesis
  proof (cases "knn_count v < knn_k v")
    case True
    let ?v1 = "v\<lparr> knn_count := knn_count v + 1 \<rparr>"
    let ?v1' = "v'\<lparr> knn_count := knn_count v' + 1 \<rparr>"
    have "knn_agree (InsertSorted ?v1 idx (dist idx)) (InsertSorted ?v1' idx (dist idx))"
      using a True nth_eq by (intro InsertSorted_agree) auto
    moreover have "knn_genuine dist (InsertSorted ?v1 idx (dist idx))"
      using a True g by (intro InsertSorted_genuine) auto
    ultimately show ?thesis using True a by (simp add: SearchKnn_visit_def)
  next
    case False
    have "knn_agree (InsertSorted v idx (dist idx)) (InsertSorted v' idx (dist idx))"
      using a False nth_eq by (intro InsertSorted_agree) auto
    moreover have "knn_genuine dist (InsertSorted v idx (dist idx))"
      using a False g by (intro InsertSorted_genuine) auto
    ultimately show ?thesis using False a by (simp add: SearchKnn_visit_def)
  qed
qed

lemma length_resize: "length (resize n xs) = n"
  by (simp add: resize_def)

lemma SearchKnn_init_agree:
  assumes "1 \<le> k"
  shows "\<exists>v v'. SearchKnn_init scalar_max k knn = Inr v \<and> SearchKnn_init scalar_max k knn' = Inr v' \<and>
           knn_agree v v' \<and> knn_genuine dist v"
proof -
  have j: "nat (int k - 1) = k - 1" "0 \<le> int k - 1" "int k - 1 < int k" "k - 1 < k"
    using assms by auto
  let ?v = "\<lambda>xs. \<lparr> knn_k = k, knn_count = 0,
                  knn_vec = (resize k xs)[k - 1 := (fst (resize k xs ! (k - 1)), scalar_max)] \<rparr>"
  have "SearchKnn_init scalar_max k knn = Inr (?v knn)"
    and "SearchKnn_init scalar_max k knn' = Inr (?v knn')"
    using j by (simp_all add: SearchKnn_init_def Let_def length_resize)
  moreover have "knn_agree (?v knn) (?v knn')"
    using assms j(4) by (simp add: knn_agree_def length_resize)
  moreover have "knn_genuine dist (?v knn)"
    by (simp add: knn_genuine_def)
  ultimately show ?thesis by blast
qed

lemma SearchKnn_init_zero:
  "SearchKnn_init scalar_max 0 knn = Inl (OutOfRange, [])"
  by (simp add: SearchKnn_init_def resize_def)

lemma SearchKnn_finish_agree:
  assumes "knn_agree v v'"
  shows "SearchKnn_finish v = SearchKnn_finish v'"
proof -
  have c: "knn_count v' = knn_count v"
    and le: "knn_count v \<le> length (knn_vec v)" "knn_count v \<le> length (knn_vec v')"
    and tk: "take (knn_count v) (knn_vec v) = take (knn_count v) (knn_vec v')"
    using assms by (auto simp: knn_agree_def)
  show ?thesis
    using le tk by (simp add: SearchKnn_finish_def resize_def c)
qed

lemma SearchKnn_finish_genuine:
  assumes "knn_agree v v'" "knn_genuine dist v"
  shows "\<forall>(i, d) \<in> set (SearchKnn_finish v). d = dist i"
proof -
  have fin: "SearchKnn_finish v = take (knn_count v) (knn_vec v)"
    and le: "knn_count v \<le> length (knn_vec v)"
    using assms(1) by (auto simp: SearchKnn_finish_def resize_def knn_agree_def)
  have "snd e = dist (fst e)" if "e \<in> set (take (knn_count v) (knn_vec v))" for e
  proof -
    from that obtain m where "m < knn_count v" "e = knn_vec v ! m"
      using le by (auto simp: in_set_conv_nth)
    then show ?thesis using assms(2) by (simp add: knn_genuine_def)
  qed
  then show ?thesis by (auto simp: fin)
qed

lemma SearchKnn_max_agree: "knn_agree v v' \<Longrightarrow> SearchKnn_max v = SearchKnn_max v'"
  by (auto simp: knn_agree_def SearchKnn_max_def)

lemma SearchKnn_rec_related:
  assumes "knn_agree v v' \<and> knn_genuine (MetricL2 norm (tree_points t) p) v"
  shows "knn_agree (snd (SearchNn_rec norm SearchKnn_visit SearchKnn_max p nd (t, v)))
                   (snd (SearchNn_rec norm SearchKnn_visit SearchKnn_max p nd (t, v'))) \<and>
         knn_genuine (MetricL2 norm (tree_points t) p)
                   (snd (SearchNn_rec norm SearchKnn_visit SearchKnn_max p nd (t, v)))"
  by (rule SearchNn_rec_related
      [where R = "\<lambda>v v'. knn_agree v v' \<and> knn_genuine (MetricL2 norm (tree_points t) p) v"
         and visit = SearchKnn_visit and visit' = SearchKnn_visit
         and vmax = SearchKnn_max and vmax' = SearchKnn_max, OF _ _ assms])
     (auto simp: SearchKnn_visit_related SearchKnn_max_agree)

lemma SearchKnn_snd:
  "SearchKnn_init scalar_max k knn = Inr v0 \<Longrightarrow>
   snd (SearchKnn norm scalar_max p k knn t) =
     Inr (SearchKnn_finish (snd (SearchNn_rec norm SearchKnn_visit SearchKnn_max p (tree_root t) (t, v0))))"
  by (simp add: SearchKnn_def split: prod.splits)

lemma SearchKnn_zero: "snd (SearchKnn norm scalar_max p 0 knn t) = Inl (OutOfRange, [])"
  by (simp add: SearchKnn_def SearchKnn_init_zero)

lemma SearchKnn_prior:
  assumes "1 \<le> k"
  shows "\<exists>r. snd (SearchKnn norm scalar_max p k knn1 t) = Inr r \<and>
             snd (SearchKnn norm scalar_max p k knn2 t) = Inr r \<and>
             (\<forall>(i, d) \<in> set r. d = MetricL2 norm (tree_points t) p i)"
proof -
  let ?M = "MetricL2 norm (tree_points t) p"
  from SearchKnn_init_agree[OF assms, of scalar_max knn1 knn2 ?M]
  obtain v v' where v: "SearchKnn_init scalar_max k knn1 = Inr v"
    and v': "SearchKnn_init scalar_max k knn2 = Inr v'"
    and R: "knn_agree v v' \<and> knn_genuine ?M v"
    by blast
  let ?w = "snd (SearchNn_rec norm SearchKnn_visit SearchKnn_max p (tree_root t) (t, v))"
  let ?w' = "snd (SearchNn_rec norm SearchKnn_visit SearchKnn_max p (tree_root t) (t, v'))"
  have R': "knn_agree ?w ?w'" "knn_genuine ?M ?w"
    using SearchKnn_rec_related[OF R, of "tree_root t"] by simp_all
  have "snd (SearchKnn norm scalar_max p k knn1 t) = Inr (SearchKnn_finish ?w)"
    by (rule SearchKnn_snd[OF v])
  moreover have "snd (SearchKnn norm scalar_max p k knn2 t) = Inr (SearchKnn_finish ?w)"
    using SearchKnn_snd[OF v', of norm p t] SearchKnn_finish_agree[OF R'(1)] by simp
  moreover have "\<forall>(i, d) \<in> set (SearchKnn_finish ?w). d = ?M i"
    by (rule SearchKnn_finish_genuine[OF R'])
  ultimately show ?thesis by blast
qed

lemma SearchRadius_genuine:
  "\<forall>(i, d) \<in> set (snd (SearchRadius norm p radius n t)). d = MetricL2 norm (tree_points t) p i"
proof -
  let ?M = "MetricL2 norm (tree_points t) p"
  let ?R = "\<lambda>v v'. v' = v \<and> (\<forall>(i, d) \<in> set (sr_n v). d = ?M i)"
  have "?R (snd (SearchNn_rec norm SearchRadius_visit SearchRadius_max p (tree_root t)
                   (t, SearchRadius_init radius n)))
           (snd (SearchNn_rec norm SearchRadius_visit SearchRadius_max p (tree_root t)
                   (t, SearchRadius_init radius n)))"
    by (rule SearchNn_rec_related[where R = ?R])
       (auto simp: SearchRadius_visit_def SearchRadius_init_def)
  then show ?thesis by (simp add: SearchRadius_snd)
qed


section \<open>Queries: what is read, what is returned\<close>

lemma upt_0_2: "[0..<2] = [0, Suc 0]"
  by (simp add: upt_rec)

lemma Metric_line_0: "MetricL2 wrap32 line_points line_query 0 = 0"
  by (simp add: MetricL2_def MetricL2_loop.simps wrap32_def line_points_def line_query_def)

lemma Metric_line_1: "MetricL2 wrap32 line_points line_query (Suc 0) = 9"
  by (simp add: MetricL2_def MetricL2_loop.simps wrap32_def line_points_def line_query_def)

lemma line_tree_built: "KdTree nth_element_sort line_points 2 = Some (Inr line_tree)"
  by (simp add: KdTree_def MakeTree_def SplitIndices_leaf line_points_def line_tree_def upt_0_2)

text \<open>
  Claim C9 (queries only read). For every index and every query (nearest, k-nearest,
  radius), the index the query returns is the index it was given: the tree with all node
  fields, the index permutation, the points and the dimension count are unchanged.
\<close>

theorem queries_read_only:
  "fst (SearchNn norm scalar_max p t) = t \<and>
   fst (SearchKnn norm scalar_max p k knn t) = t \<and>
   fst (SearchRadius norm p radius n t) = t"
proof (intro conjI)
  show "fst (SearchNn norm scalar_max p t) = t"
    using SearchNn_rec_frame[of norm SearchNn_visit SearchNn_max p "tree_root t" t "SearchNn_init scalar_max"]
    by (auto simp: SearchNn_def split: prod.splits)
  show "fst (SearchKnn norm scalar_max p k knn t) = t"
  proof (cases "SearchKnn_init scalar_max k knn")
    case (Inl e)
    then show ?thesis by (simp add: SearchKnn_def)
  next
    case (Inr v0)
    then show ?thesis
      using SearchNn_rec_frame[of norm SearchKnn_visit SearchKnn_max p "tree_root t" t v0]
      by (auto simp: SearchKnn_def split: prod.splits)
  qed
  show "fst (SearchRadius norm p radius n t) = t"
    using SearchNn_rec_frame[of norm SearchRadius_visit SearchRadius_max p "tree_root t" t
        "SearchRadius_init radius n"]
    by (auto simp: SearchRadius_def split: prod.splits)
qed

text \<open>
  Claim C1 (nearest neighbour) at a failing input. Two points \<open>0\<close> and \<open>3\<close> on a line,
  \<open>max_leaf_size = 2\<close>, so the index is one leaf; the query is \<open>0\<close>, and
  \<open>numeric_limits::max()\<close> is that of a 32-bit \<open>int\<close>. The leaf loop compares each distance
  with the bound read before the loop, so the second point (distance \<open>9\<close>) is reported
  after the first (distance \<open>0\<close>) and replaces it: \<open>SearchNn\<close> returns identifier \<open>1\<close> with
  distance \<open>9\<close>, while point \<open>0\<close> is at distance \<open>0\<close>.
\<close>

theorem nearest_wrong_in_leaf:
  "KdTree nth_element_sort line_points 2 = Some (Inr line_tree) \<and>
   snd (SearchNn wrap32 2147483647 line_query line_tree) = (Some 1, 9) \<and>
   MetricL2 wrap32 line_points line_query 0 = 0"
  by (simp add: line_tree_built Metric_line_0 Metric_line_1 SearchNn_def SearchNn_rec.simps wrap32_def
      SearchNn_leaf.simps line_tree_def SearchNn_init_def SearchNn_visit_def SearchNn_max_def
      nearest_def)

text \<open>
  Claim C2 (k nearest neighbours) at a failing input. Three points \<open>0\<close>, \<open>1\<close> and \<open>5\<close> on a
  line, \<open>max_leaf_size = 3\<close> (one leaf), the query \<open>0\<close> and \<open>k = 2\<close>, the caller's vector
  empty. The third point (distance \<open>25\<close>) is tested against the bound read before the loop,
  is reported, and \<open>InsertSorted\<close> writes it over the second nearest (distance \<open>1\<close>): the
  result is \<open>[(0, 0), (2, 25)]\<close>, not the two smallest distances \<open>0\<close> and \<open>1\<close>.
\<close>

theorem knn_wrong_in_leaf:
  "KdTree nth_element_sort three_points 3 = Some (Inr three_tree) \<and>
   snd (SearchKnn wrap32 2147483647 line_query 2 [] three_tree) = Inr [(0, 0), (2, 25)] \<and>
   MetricL2 wrap32 three_points line_query 1 = 1"
proof -
  have m: "MetricL2 wrap32 three_points line_query 0 = 0" "MetricL2 wrap32 three_points line_query (Suc 0) = 1"
    "MetricL2 wrap32 three_points line_query 2 = 25"
    by (simp_all add: MetricL2_def MetricL2_loop.simps wrap32_def three_points_def line_query_def)
  have rep: "replicate 2 (0::nat, 0::int) = [(0, 0), (0, 0)]"
    by (simp add: numeral_2_eq_2)
  have "KdTree nth_element_sort three_points 3 = Some (Inr three_tree)"
    by (simp add: KdTree_def MakeTree_def SplitIndices_leaf three_points_def three_tree_def
        upt_rec)
  moreover have "snd (SearchKnn wrap32 2147483647 line_query 2 [] three_tree) = Inr [(0, 0), (2, 25)]"
    by (simp add: m SearchKnn_def SearchNn_rec.simps wrap32_def SearchNn_leaf.simps three_tree_def
        SearchKnn_init_def SearchKnn_visit_def SearchKnn_max_def SearchKnn_finish_def
        InsertSorted_def resize_def rep)
  ultimately show ?thesis using m by simp
qed

text \<open>
  Claim C3 (report only below the current bound) at a failing input: the same index and
  query, with the single-nearest visitor wrapped so that every report is recorded with the
  bound the visitor had at that moment. The second report is identifier \<open>1\<close> with distance
  \<open>9\<close> while the visitor's bound was \<open>0\<close>.
\<close>

theorem report_against_stale_bound:
  "KdTree nth_element_sort line_points 2 = Some (Inr line_tree) \<and>
   snd (snd (SearchNn_rec wrap32 (traced_visit SearchNn_visit SearchNn_max) (traced_max SearchNn_max)
               line_query (tree_root line_tree) (line_tree, (SearchNn_init 2147483647, []))))
     = [(0, 0, 2147483647), (1, 9, 0)]"
  by (simp add: line_tree_built Metric_line_0 Metric_line_1 SearchNn_rec.simps wrap32_def
      SearchNn_leaf.simps line_tree_def SearchNn_init_def SearchNn_visit_def SearchNn_max_def
      traced_visit_def traced_max_def)

text \<open>
  Claim C8 (\<open>k = 0\<close>), as stated: a query with \<open>k = 0\<close> is rejected at entry without touching
  the result storage. It fails for a caller's vector holding one pair: whatever stops the
  call, the vector no longer holds that pair.
\<close>

theorem knn_zero_counterexample:
  "\<not> (\<exists>e. snd (SearchKnn wrap32 2147483647 line_query 0 [(7, 1)] line_tree) = Inl (e, [(7, 1)]))"
  by (simp add: SearchKnn_def SearchKnn_init_def resize_def)

text \<open>
  Claim C8, amended. A k-nearest query does not validate \<open>k\<close>. With \<open>k = 0\<close> the visitor's
  constructor first resizes the caller's vector to no entries and then addresses
  \<open>knn_[k_ - 1]\<close>, outside the vector, before the search starts (the fault \<open>OutOfRange\<close>;
  in C++ the behaviour is undefined from there). With \<open>k \<ge> 1\<close> the constructor passes and
  the query returns a vector.
\<close>

theorem knn_zero_faults:
  "snd (SearchKnn norm scalar_max p 0 knn t) = Inl (OutOfRange, []) \<and>
   (1 \<le> k \<longrightarrow> (\<exists>r. snd (SearchKnn norm scalar_max p k knn t) = Inr r))"
  by (auto simp: SearchKnn_def SearchKnn_init_def resize_def Let_def split: prod.splits)

theorem knn_zero_faults_witness:
  "snd (SearchKnn wrap32 2147483647 line_query 0 [(7, 1)] line_tree) = Inl (OutOfRange, []) \<and>
   (1::nat) \<le> 1 \<and> (\<exists>r. snd (SearchKnn wrap32 2147483647 line_query 1 [(7, 1)] line_tree) = Inr r)"
  using knn_zero_faults[of wrap32 2147483647 line_query "[(7, 1)]" line_tree 1] by simp

text \<open>
  Claim C10 (previous contents are discarded). For any two prior contents of the caller's
  vector, \<open>SearchRadius\<close> returns the same vector and \<open>SearchKnn\<close> returns the same outcome;
  every pair in a returned vector is an identifier with its metric distance to the query
  of this call.
\<close>

theorem results_ignore_prior_contents:
  "snd (SearchRadius norm p radius n1 t) = snd (SearchRadius norm p radius n2 t) \<and>
   snd (SearchKnn norm scalar_max p k knn1 t) = snd (SearchKnn norm scalar_max p k knn2 t) \<and>
   (\<forall>(i, d) \<in> set (snd (SearchRadius norm p radius n1 t)). d = MetricL2 norm (tree_points t) p i) \<and>
   (\<forall>r. snd (SearchKnn norm scalar_max p k knn1 t) = Inr r \<longrightarrow>
        (\<forall>(i, d) \<in> set r. d = MetricL2 norm (tree_points t) p i))"
proof (intro conjI)
  show "snd (SearchRadius norm p radius n1 t) = snd (SearchRadius norm p radius n2 t)"
    by (simp add: SearchRadius_def SearchRadius_init_def)
  show "snd (SearchKnn norm scalar_max p k knn1 t) = snd (SearchKnn norm scalar_max p k knn2 t)"
  proof (cases "k = 0")
    case True
    then show ?thesis by (simp add: SearchKnn_zero)
  next
    case False
    then show ?thesis using SearchKnn_prior[of k norm scalar_max p knn1 t knn2] by auto
  qed
  show "\<forall>(i, d) \<in> set (snd (SearchRadius norm p radius n1 t)). d = MetricL2 norm (tree_points t) p i"
    by (rule SearchRadius_genuine)
  show "\<forall>r. snd (SearchKnn norm scalar_max p k knn1 t) = Inr r \<longrightarrow>
          (\<forall>(i, d) \<in> set r. d = MetricL2 norm (tree_points t) p i)"
  proof (cases "k = 0")
    case True
    then show ?thesis by (simp add: SearchKnn_zero)
  next
    case False
    then show ?thesis using SearchKnn_prior[of k norm scalar_max p knn1 t knn1] by auto
  qed
qed

theorem results_ignore_prior_contents_witness:
  "snd (SearchRadius wrap32 line_query 5 [(7, 1)] line_tree) = snd (SearchRadius wrap32 line_query 5 [] line_tree) \<and>
   snd (SearchKnn wrap32 2147483647 line_query 2 [(7, 1), (8, 2), (9, 3)] line_tree)
     = snd (SearchKnn wrap32 2147483647 line_query 2 [] line_tree) \<and>
   snd (SearchKnn wrap32 2147483647 line_query 2 [(7, 1), (8, 2), (9, 3)] line_tree) = Inr [(0, 0), (1, 9)] \<and>
   MetricL2 wrap32 (tree_points line_tree) line_query 0 = 0 \<and>
   MetricL2 wrap32 (tree_points line_tree) line_query 1 = 9"
proof -
  have r: "snd (SearchKnn wrap32 2147483647 line_query 2 [(7, 1), (8, 2), (9, 3)] line_tree)
             = Inr [(0, 0), (1, 9)]"
    by (simp add: Metric_line_0 Metric_line_1 SearchKnn_def SearchNn_rec.simps wrap32_def
      SearchNn_leaf.simps line_tree_def SearchKnn_init_def SearchKnn_visit_def SearchKnn_max_def
      SearchKnn_finish_def InsertSorted_def resize_def)
  from results_ignore_prior_contents[of wrap32 line_query 5 "[(7, 1)]" line_tree "[]" 2147483647 2
        "[(7, 1), (8, 2), (9, 3)]" "[]"]
  have 1: "snd (SearchRadius wrap32 line_query 5 [(7, 1)] line_tree)
             = snd (SearchRadius wrap32 line_query 5 [] line_tree)"
    and 2: "snd (SearchKnn wrap32 2147483647 line_query 2 [(7, 1), (8, 2), (9, 3)] line_tree)
             = snd (SearchKnn wrap32 2147483647 line_query 2 [] line_tree)"
    and 3: "\<forall>r. snd (SearchKnn wrap32 2147483647 line_query 2 [(7, 1), (8, 2), (9, 3)] line_tree) = Inr r
             \<longrightarrow> (\<forall>(i, d) \<in> set r. d = MetricL2 wrap32 (tree_points line_tree) line_query i)"
    by blast+
  from 3 r have "\<forall>(i, d) \<in> set [(0, 0), (1, 9)]. d = MetricL2 wrap32 (tree_points line_tree) line_query i"
    by blast
  then have "MetricL2 wrap32 (tree_points line_tree) line_query 0 = 0"
    and "MetricL2 wrap32 (tree_points line_tree) line_query 1 = 9"
    by simp_all
  with 1 2 r show ?thesis by blast
qed

end
